theory Spec2Isabelle
  imports Main
begin

section \<open>Theater mode: message store, message conversion and event handler\<close>

text \<open>
  Shallow embedding of the theater client: the message store and \<open>toTheaterMessage\<close>
  (stores/messages), the users store with \<open>formatWhisperRecipientsWithNames\<close>
  (stores/users), the typing and presence stores, and the long-poll event handler
  (events/handler.ts).

  Conventions. A JavaScript number that carries an id, a timestamp or a count is an
  \<open>int\<close> (or a \<open>nat\<close> for a length); \<open>lastEventId\<close>, which \<open>Math.max\<close> can turn into
  \<open>NaN\<close>, is a \<open>number\<close>. A key of a \<open>Record<string, unknown>\<close> that the code reads
  through a cast is a field of the cast's type; a key that may be absent
  (\<open>undefined\<close>) is an \<open>option\<close>. A thrown exception is the \<open>Inl\<close> of a sum.
\<close>

subsection \<open>Numbers in template strings\<close>

text \<open>\<open>String(n)\<close> for an integer \<open>n\<close>: decimal digits, with a leading minus sign.\<close>

definition digit_char :: "nat \<Rightarrow> char" where
  "digit_char d = ''0123456789'' ! d"

fun digits :: "nat \<Rightarrow> string" where
  "digits n = (if n < 10 then [digit_char n] else digits (n div 10) @ [digit_char (n mod 10)])"

declare digits.simps [simp del]

definition num_str :: "int \<Rightarrow> string" where
  "num_str i = (if i < 0 then CHR ''-'' # digits (nat (- i)) else digits (nat i))"

text \<open>
  A number that may be \<open>NaN\<close>. \<open>Math.max\<close> is \<open>NaN\<close> as soon as one argument is, and
  the number of an \<open>undefined\<close> value is \<open>NaN\<close>.
\<close>

datatype number = Finite int | NaN

fun Math_max :: "number \<Rightarrow> number \<Rightarrow> number" where
  "Math_max (Finite a) (Finite b) = Finite (max a b)"
| "Math_max _ _ = NaN"

definition to_number :: "int option \<Rightarrow> number" where
  "to_number v = (case v of Some i \<Rightarrow> Finite i | None \<Rightarrow> NaN)"

subsection \<open>The messages store\<close>

text \<open>\<open>interface WhisperRecipients\<close>: both arrays are optional.\<close>

record WhisperRecipients =
  user_ids :: "int list option"
  group_ids :: "int list option"

text \<open>
  \<open>interface TheaterMessage\<close>. The fields \<open>id\<close> and \<open>type\<close> are \<open>msg_id\<close> and
  \<open>msg_type\<close> here; an optional field and a field that may be \<open>null\<close> are options.
  \<open>streamId\<close> is declared \<open>number\<close> but is copied from the raw \<open>stream_id\<close>, which a
  private message does not have, so it is an option as well.
\<close>

record TheaterMessage =
  msg_id :: int
  msg_type :: string
  sender_id :: int
  sender_full_name :: string
  sender_email :: string
  avatar_url :: "string option"
  content :: string
  rendered_content :: string
  timestamp :: int
  stream_id :: "int option"
  topic :: "string option"
  persona_id :: "int option"
  persona_display_name :: "string option"
  persona_avatar_url :: "string option"
  persona_color :: "string option"
  puppet_display_name :: "string option"
  puppet_avatar_url :: "string option"
  whisper_recipients :: "WhisperRecipients option"
  characterName :: string
  characterAvatar :: "string option"
  characterColor :: "string option"
  isWhisper :: bool
  whisperRecipientsText :: "string option"
  isRead :: bool
  streamId :: "int option"

text \<open>
  \<open>Partial<TheaterMessage>\<close>, the argument of \<open>updateMessage\<close>: every field of the
  message may be present or absent; \<open>{...m, ...updates}\<close> overwrites the fields that
  are present.
\<close>

record MessagePatch =
  p_id :: "int option"
  p_type :: "string option"
  p_sender_id :: "int option"
  p_sender_full_name :: "string option"
  p_sender_email :: "string option"
  p_avatar_url :: "string option option"
  p_content :: "string option"
  p_rendered_content :: "string option"
  p_timestamp :: "int option"
  p_stream_id :: "int option option"
  p_topic :: "string option option"
  p_persona_id :: "int option option"
  p_persona_display_name :: "string option option"
  p_persona_avatar_url :: "string option option"
  p_persona_color :: "string option option"
  p_puppet_display_name :: "string option option"
  p_puppet_avatar_url :: "string option option"
  p_whisper_recipients :: "WhisperRecipients option option"
  p_characterName :: "string option"
  p_characterAvatar :: "string option option"
  p_characterColor :: "string option option"
  p_isWhisper :: "bool option"
  p_whisperRecipientsText :: "string option option"
  p_isRead :: "bool option"
  p_streamId :: "int option option"

definition no_patch :: MessagePatch where
  "no_patch = \<lparr>p_id = None, p_type = None, p_sender_id = None, p_sender_full_name = None,
     p_sender_email = None, p_avatar_url = None, p_content = None,
     p_rendered_content = None, p_timestamp = None, p_stream_id = None, p_topic = None,
     p_persona_id = None, p_persona_display_name = None, p_persona_avatar_url = None,
     p_persona_color = None, p_puppet_display_name = None, p_puppet_avatar_url = None,
     p_whisper_recipients = None, p_characterName = None, p_characterAvatar = None,
     p_characterColor = None, p_isWhisper = None, p_whisperRecipientsText = None,
     p_isRead = None, p_streamId = None\<rparr>"

text \<open>\<open>u ?? v\<close> for a value read from a patch: the patch's value when present.\<close>

definition overwrite :: "'a option \<Rightarrow> 'a \<Rightarrow> 'a" where
  "overwrite u v = (case u of None \<Rightarrow> v | Some w \<Rightarrow> w)"

definition apply_patch :: "TheaterMessage \<Rightarrow> MessagePatch \<Rightarrow> TheaterMessage" where
  "apply_patch m u = \<lparr>
     msg_id = overwrite (p_id u) (msg_id m),
     msg_type = overwrite (p_type u) (msg_type m),
     sender_id = overwrite (p_sender_id u) (sender_id m),
     sender_full_name = overwrite (p_sender_full_name u) (sender_full_name m),
     sender_email = overwrite (p_sender_email u) (sender_email m),
     avatar_url = overwrite (p_avatar_url u) (avatar_url m),
     content = overwrite (p_content u) (content m),
     rendered_content = overwrite (p_rendered_content u) (rendered_content m),
     timestamp = overwrite (p_timestamp u) (timestamp m),
     stream_id = overwrite (p_stream_id u) (stream_id m),
     topic = overwrite (p_topic u) (topic m),
     persona_id = overwrite (p_persona_id u) (persona_id m),
     persona_display_name = overwrite (p_persona_display_name u) (persona_display_name m),
     persona_avatar_url = overwrite (p_persona_avatar_url u) (persona_avatar_url m),
     persona_color = overwrite (p_persona_color u) (persona_color m),
     puppet_display_name = overwrite (p_puppet_display_name u) (puppet_display_name m),
     puppet_avatar_url = overwrite (p_puppet_avatar_url u) (puppet_avatar_url m),
     whisper_recipients = overwrite (p_whisper_recipients u) (whisper_recipients m),
     characterName = overwrite (p_characterName u) (characterName m),
     characterAvatar = overwrite (p_characterAvatar u) (characterAvatar m),
     characterColor = overwrite (p_characterColor u) (characterColor m),
     isWhisper = overwrite (p_isWhisper u) (isWhisper m),
     whisperRecipientsText = overwrite (p_whisperRecipientsText u) (whisperRecipientsText m),
     isRead = overwrite (p_isRead u) (isRead m),
     streamId = overwrite (p_streamId u) (streamId m)\<rparr>"

text \<open>
  \<open>combined.sort((a, b) => a.id - b.id)\<close>: \<open>Array.prototype.sort\<close> is a stable sort,
  and the result of a stable sort by a key is the stable insertion sort \<open>sort_key\<close>.
\<close>

definition sort_by_id :: "TheaterMessage list \<Rightarrow> TheaterMessage list" where
  "sort_by_id ms = sort_key msg_id ms"

text \<open>
  The \<open>filter\<close> with the \<open>seen\<close> set of \<open>addMessages\<close> and \<open>prependMessages\<close>: a message
  whose id has been seen is dropped, any other is kept and its id recorded.
\<close>

fun dedupe :: "int set \<Rightarrow> TheaterMessage list \<Rightarrow> TheaterMessage list" where
  "dedupe seen [] = []"
| "dedupe seen (m # ms) =
     (if msg_id m \<in> seen then dedupe seen ms else m # dedupe (insert (msg_id m) seen) ms)"

text \<open>The store's value is the array of messages; every method maps the old array to the new one.\<close>

definition setMessages :: "TheaterMessage list \<Rightarrow> TheaterMessage list \<Rightarrow> TheaterMessage list" where
  "setMessages msgs messages = msgs"

definition addMessage :: "TheaterMessage \<Rightarrow> TheaterMessage list \<Rightarrow> TheaterMessage list" where
  "addMessage msg messages = sort_by_id (messages @ [msg])"

definition addMessages :: "TheaterMessage list \<Rightarrow> TheaterMessage list \<Rightarrow> TheaterMessage list" where
  "addMessages msgs messages = dedupe {} (sort_by_id (messages @ msgs))"

definition prependMessages :: "TheaterMessage list \<Rightarrow> TheaterMessage list \<Rightarrow> TheaterMessage list" where
  "prependMessages msgs messages = dedupe {} (sort_by_id (msgs @ messages))"

definition updateMessage :: "int \<Rightarrow> MessagePatch \<Rightarrow> TheaterMessage list \<Rightarrow> TheaterMessage list" where
  "updateMessage i updates messages =
     map (\<lambda>m. if msg_id m = i then apply_patch m updates else m) messages"

definition removeMessage :: "int \<Rightarrow> TheaterMessage list \<Rightarrow> TheaterMessage list" where
  "removeMessage i messages = filter (\<lambda>m. msg_id m \<noteq> i) messages"

definition markAsRead :: "int \<Rightarrow> TheaterMessage list \<Rightarrow> TheaterMessage list" where
  "markAsRead i messages = map (\<lambda>m. if msg_id m = i then m\<lparr>isRead := True\<rparr> else m) messages"

definition clear :: "TheaterMessage list \<Rightarrow> TheaterMessage list" where
  "clear messages = []"

text \<open>A call of one of the store's methods, and a sequence of calls from the empty store.\<close>

datatype store_op =
    AddMessage TheaterMessage
  | AddMessages "TheaterMessage list"
  | PrependMessages "TheaterMessage list"
  | UpdateMessage int MessagePatch
  | RemoveMessage int
  | MarkAsRead int

fun store_call :: "store_op \<Rightarrow> TheaterMessage list \<Rightarrow> TheaterMessage list" where
  "store_call (AddMessage m) ms = addMessage m ms"
| "store_call (AddMessages ns) ms = addMessages ns ms"
| "store_call (PrependMessages ns) ms = prependMessages ns ms"
| "store_call (UpdateMessage i u) ms = updateMessage i u ms"
| "store_call (RemoveMessage i) ms = removeMessage i ms"
| "store_call (MarkAsRead i) ms = markAsRead i ms"

definition store_calls :: "store_op list \<Rightarrow> TheaterMessage list \<Rightarrow> TheaterMessage list" where
  "store_calls ops ms = fold store_call ops ms"

text \<open>An \<open>updateMessage\<close> call in the sequence patches fields other than the id.\<close>

fun keeps_id :: "store_op \<Rightarrow> bool" where
  "keeps_id (UpdateMessage i u) = (p_id u = None)"
| "keeps_id _ = True"

subsection \<open>The users store and the whisper label\<close>

text \<open>\<open>interface UserInfo\<close>, and the users store, a \<open>Map<number, UserInfo>\<close>.\<close>

record UserInfo =
  u_user_id :: int
  u_full_name :: string
  u_avatar_url :: "string option"

type_synonym UsersStore = "int \<rightharpoonup> UserInfo"

definition getUserName :: "UsersStore \<Rightarrow> int \<Rightarrow> string" where
  "getUserName users userId =
     (case users userId of Some user \<Rightarrow> u_full_name user | None \<Rightarrow> ''User #'' @ num_str userId)"

text \<open>\<open>parts.join(sep)\<close>.\<close>

fun join :: "string \<Rightarrow> string list \<Rightarrow> string" where
  "join sep [] = []"
| "join sep [x] = x"
| "join sep (x # y # ys) = x @ sep @ join sep (y # ys)"

text \<open>
  \<open>formatWhisperRecipientsWithNames\<close>. The argument is \<open>None\<close> for \<open>null\<close> and
  \<open>undefined\<close>; \<open>recipients.user_ids?.length\<close> is falsy for an absent and for an empty
  array.
\<close>

definition formatWhisperRecipientsWithNames ::
    "UsersStore \<Rightarrow> WhisperRecipients option \<Rightarrow> string" where
  "formatWhisperRecipientsWithNames users recipients =
     (case recipients of
        None \<Rightarrow> ''whisper''
      | Some r \<Rightarrow>
          (let parts0 = [];
               parts1 =
                 (case user_ids r of
                    None \<Rightarrow> parts0
                  | Some ids \<Rightarrow>
                      if length ids = 0 then parts0
                      else (let names = map (getUserName users) ids in
                            if length names \<le> 3 then parts0 @ [join '', '' names]
                            else parts0 @ [join '', '' (take 2 names) @ '' +'' @
                                            digits (length names - 2) @ '' more'']));
               parts2 =
                 (case group_ids r of
                    None \<Rightarrow> parts1
                  | Some gs \<Rightarrow>
                      if length gs = 0 then parts1
                      else parts1 @ [digits (length gs) @ '' group(s)''])
           in if length parts2 > 0 then ''to '' @ join '', '' parts2 else ''whisper''))"

subsection \<open>Converting a raw message\<close>

text \<open>A value that may be \<open>undefined\<close>, \<open>null\<close> or present.\<close>

datatype 'a nullable = Undefined | Null | Value 'a

text \<open>\<open>v ?? null\<close> and \<open>v ?? w\<close>.\<close>

fun or_null :: "'a nullable \<Rightarrow> 'a option" where
  "or_null (Value v) = Some v"
| "or_null _ = None"

definition orelse :: "'a option \<Rightarrow> 'a option \<Rightarrow> 'a option" where
  "orelse a b = (case a of Some v \<Rightarrow> Some v | None \<Rightarrow> b)"

text \<open>
  The raw API message, a \<open>Record<string, unknown>\<close>: one field \<open>raw_k\<close> for each key
  \<open>k\<close> that \<open>toTheaterMessage\<close> reads, at the type of the cast. For \<open>whisper_recipients\<close>
  the code tells \<open>null\<close> and \<open>undefined\<close> from a value; for the other optional keys both
  are \<open>None\<close>.
\<close>

record RawMessage =
  raw_id :: int
  raw_type :: string
  raw_sender_id :: int
  raw_sender_full_name :: string
  raw_sender_email :: string
  raw_avatar_url :: "string option"
  raw_content :: string
  raw_rendered_content :: "string option"
  raw_timestamp :: int
  raw_stream_id :: "int option"
  raw_subject :: "string option"
  raw_topic :: "string option"
  raw_persona_id :: "int option"
  raw_persona_display_name :: "string option"
  raw_persona_avatar_url :: "string option"
  raw_persona_color :: "string option"
  raw_puppet_display_name :: "string option"
  raw_puppet_avatar_url :: "string option"
  raw_whisper_recipients :: "WhisperRecipients nullable"
  raw_flags :: "string list option"

definition toTheaterMessage :: "UsersStore \<Rightarrow> RawMessage \<Rightarrow> TheaterMessage" where
  "toTheaterMessage users raw =
     (let personaName = raw_persona_display_name raw;
          puppetName = raw_puppet_display_name raw;
          senderName = raw_sender_full_name raw;
          personaAvatar = raw_persona_avatar_url raw;
          puppetAvatar = raw_puppet_avatar_url raw;
          senderAvatar = raw_avatar_url raw;
          personaColor = raw_persona_color raw;
          whisperRecipients = raw_whisper_recipients raw;
          isWhisper' = (whisperRecipients \<noteq> Null \<and> whisperRecipients \<noteq> Undefined);
          flags = (case raw_flags raw of Some fs \<Rightarrow> fs | None \<Rightarrow> []);
          isRead' = (''read'' \<in> set flags);
          streamId' = raw_stream_id raw;
          topic' = orelse (raw_subject raw) (raw_topic raw);
          personaId = raw_persona_id raw
      in \<lparr>msg_id = raw_id raw,
          msg_type = raw_type raw,
          sender_id = raw_sender_id raw,
          sender_full_name = senderName,
          sender_email = raw_sender_email raw,
          avatar_url = senderAvatar,
          content = raw_content raw,
          rendered_content =
            (case raw_rendered_content raw of Some r \<Rightarrow> r | None \<Rightarrow> raw_content raw),
          timestamp = raw_timestamp raw,
          stream_id = streamId',
          topic = topic',
          persona_id = personaId,
          persona_display_name = personaName,
          persona_avatar_url = personaAvatar,
          persona_color = personaColor,
          puppet_display_name = puppetName,
          puppet_avatar_url = puppetAvatar,
          whisper_recipients = or_null whisperRecipients,
          characterName =
            (case orelse personaName puppetName of Some n \<Rightarrow> n | None \<Rightarrow> senderName),
          characterAvatar = orelse (orelse personaAvatar puppetAvatar) senderAvatar,
          characterColor = personaColor,
          isWhisper = isWhisper',
          whisperRecipientsText =
            (if isWhisper'
             then Some (formatWhisperRecipientsWithNames users (or_null whisperRecipients))
             else None),
          isRead = isRead',
          streamId = streamId'\<rparr>)"

subsection \<open>The typing store\<close>

record Typist =
  typist_user_id :: int
  typist_full_name :: string
  typist_persona_name :: "string option"

text \<open>
  A pending \<open>setTimeout\<close> of the typing store. Its callback is always
  \<open>removeTypist(key, userId)\<close>, so the timer carries the two arguments.
\<close>

record Timer =
  handle :: nat
  deadline :: nat
  cb_key :: string
  cb_userId :: int

text \<open>
  The store's value (\<open>typists\<close>, the map from \<open>"streamId:topic"\<close> to the typists), the
  closure's \<open>timeouts\<close> map from \<open>"key:userId"\<close> to a timer handle, and the timers of
  the runtime: the pending timers in the order they were set, the next fresh handle
  and the clock in milliseconds.
\<close>

record TypingStore =
  typists :: "string \<rightharpoonup> Typist list"
  timeouts :: "string \<rightharpoonup> nat"
  timers :: "Timer list"
  next_handle :: nat
  now :: nat

definition timeoutKey :: "string \<Rightarrow> int \<Rightarrow> string" where
  "timeoutKey key userId = key @ '':'' @ num_str userId"

text \<open>\<open>clearTimeout(h)\<close> and \<open>setTimeout(() => removeTypist(key, userId), delay)\<close>.\<close>

definition clearTimeout :: "nat \<Rightarrow> TypingStore \<Rightarrow> TypingStore" where
  "clearTimeout h s = s\<lparr>timers := filter (\<lambda>x. handle x \<noteq> h) (timers s)\<rparr>"

definition setTimeout :: "string \<Rightarrow> int \<Rightarrow> nat \<Rightarrow> TypingStore \<Rightarrow> nat \<times> TypingStore" where
  "setTimeout key userId delay s =
     (next_handle s,
      s\<lparr>timers := timers s @
           [\<lparr>handle = next_handle s, deadline = now s + delay, cb_key = key, cb_userId = userId\<rparr>],
        next_handle := Suc (next_handle s)\<rparr>)"

text \<open>A timer handle is truthy, so \<open>if (existing)\<close> asks whether the key is in the map.\<close>

definition clearTypistTimeout :: "string \<Rightarrow> int \<Rightarrow> TypingStore \<Rightarrow> TypingStore" where
  "clearTypistTimeout key userId s =
     (case timeouts s (timeoutKey key userId) of
        None \<Rightarrow> s
      | Some existing \<Rightarrow>
          (let s1 = clearTimeout existing s
           in s1\<lparr>timeouts := (timeouts s1)(timeoutKey key userId := None)\<rparr>))"

definition setTypistTimeout :: "string \<Rightarrow> int \<Rightarrow> TypingStore \<Rightarrow> TypingStore" where
  "setTypistTimeout key userId s =
     (let s1 = clearTypistTimeout key userId s;
          (h, s2) = setTimeout key userId 15000 s1
      in s2\<lparr>timeouts := (timeouts s2)(timeoutKey key userId \<mapsto> h)\<rparr>)"

definition addTypist :: "string \<Rightarrow> Typist \<Rightarrow> TypingStore \<Rightarrow> TypingStore" where
  "addTypist key typist s =
     (let existing = (case typists s key of Some ts \<Rightarrow> ts | None \<Rightarrow> []);
          s1 = (if \<exists>t \<in> set existing. typist_user_id t = typist_user_id typist then s
                else s\<lparr>typists := (typists s)(key \<mapsto> existing @ [typist])\<rparr>)
      in setTypistTimeout key (typist_user_id typist) s1)"

definition removeTypist :: "string \<Rightarrow> int \<Rightarrow> TypingStore \<Rightarrow> TypingStore" where
  "removeTypist key userId s =
     (let s1 = clearTypistTimeout key userId s
      in case typists s1 key of
           None \<Rightarrow> s1
         | Some existing \<Rightarrow>
             (let filtered = filter (\<lambda>t. typist_user_id t \<noteq> userId) existing
              in if length filtered = 0 then s1\<lparr>typists := (typists s1)(key := None)\<rparr>
                 else s1\<lparr>typists := (typists s1)(key \<mapsto> filtered)\<rparr>))"

definition getTypists :: "int \<Rightarrow> string \<Rightarrow> TypingStore \<Rightarrow> Typist list" where
  "getTypists sid tp s =
     (case typists s (num_str sid @ '':'' @ tp) of Some ts \<Rightarrow> ts | None \<Rightarrow> [])"

text \<open>
  The runtime's side of the timers. Time passes up to the instant \<open>t\<close>; a pending timer
  whose deadline is reached fires at its deadline, the earliest deadline first and,
  among equal deadlines, the timer set first. Firing removes the timer and runs its
  callback.
\<close>

fun earliest :: "Timer list \<Rightarrow> Timer option" where
  "earliest [] = None"
| "earliest (x # xs) =
     (case earliest xs of
        None \<Rightarrow> Some x
      | Some y \<Rightarrow> if deadline x \<le> deadline y then Some x else Some y)"

definition next_due :: "nat \<Rightarrow> Timer list \<Rightarrow> Timer option" where
  "next_due t ts = earliest (filter (\<lambda>x. deadline x \<le> t) ts)"

definition fire :: "Timer \<Rightarrow> TypingStore \<Rightarrow> TypingStore" where
  "fire x s =
     removeTypist (cb_key x) (cb_userId x)
       (s\<lparr>timers := filter (\<lambda>y. handle y \<noteq> handle x) (timers s),
          now := max (now s) (deadline x)\<rparr>)"

function advance :: "nat \<Rightarrow> TypingStore \<Rightarrow> TypingStore" where
  "advance t s =
     (case next_due t (timers s) of
        None \<Rightarrow> s\<lparr>now := max (now s) t\<rparr>
      | Some x \<Rightarrow> advance t (fire x s))"
  by pat_completeness auto
termination
proof (relation "measure (\<lambda>(t, s). length (timers s))")
  show "wf (measure (\<lambda>(t, s). length (timers s)))"
    by simp
next
  fix t :: nat and s :: TypingStore and x :: Timer
  assume due: "next_due t (timers s) = Some x"
  have mem: "earliest ys = Some y \<Longrightarrow> y \<in> set ys" for ys :: "Timer list" and y
    by (induction ys arbitrary: y) (auto split: option.splits if_splits)
  from due have "x \<in> set (timers s)"
    using mem [of "filter (\<lambda>x. deadline x \<le> t) (timers s)" x] by (simp add: next_due_def)
  then have shorter: "length (filter (\<lambda>y. handle y \<noteq> handle x) (timers s)) < length (timers s)"
    by (simp add: length_filter_less)
  have keep: "length (timers (removeTypist k u r)) \<le> length (timers r)"
    for k u and r :: TypingStore
    by (simp add: removeTypist_def clearTypistTimeout_def clearTimeout_def Let_def
        split: option.splits)
  have "length (timers (fire x s)) \<le> length (filter (\<lambda>y. handle y \<noteq> handle x) (timers s))"
    unfolding fire_def by (rule order_trans [OF keep]) simp
  with shorter show "((t, fire x s), (t, s)) \<in> measure (\<lambda>(t, s). length (timers s))"
    by simp
qed

declare advance.simps [simp del]

subsection \<open>The presence store\<close>

record ActivePersona =
  ap_id :: int
  ap_name :: string
  ap_avatar_url :: "string option"

record CastMember =
  cm_user_id :: int
  cm_full_name :: string
  cm_avatar_url :: "string option"
  cm_status :: string
  cm_active_persona :: "ActivePersona option"

type_synonym PresenceStore = "int \<rightharpoonup> CastMember"

text \<open>The user id is \<open>None\<close> for \<open>NaN\<close>, which is the key of no member.\<close>

definition setPresence :: "int option \<Rightarrow> string \<Rightarrow> PresenceStore \<Rightarrow> PresenceStore" where
  "setPresence userId status' m =
     (case userId of
        None \<Rightarrow> m
      | Some u \<Rightarrow>
          (case m u of
             Some member \<Rightarrow> m(u \<mapsto> member\<lparr>cm_status := status'\<rparr>)
           | None \<Rightarrow> m))"

text \<open>
  \<open>Number.parseInt(s, 10)\<close>: leading white space, an optional sign, then the longest
  run of decimal digits; \<open>NaN\<close> (\<open>None\<close>) when there is no digit.
\<close>

definition is_space :: "char \<Rightarrow> bool" where
  "is_space c = (c \<in> set [CHR '' '', CHR 0x09, CHR 0x0A, CHR 0x0B, CHR 0x0C, CHR 0x0D])"

definition digit_val :: "char \<Rightarrow> nat option" where
  "digit_val c =
     (if c \<in> set ''0123456789'' then Some (length (takeWhile (\<lambda>d. d \<noteq> c) ''0123456789''))
      else None)"

fun parse_digits :: "string \<Rightarrow> nat option \<Rightarrow> nat option" where
  "parse_digits [] acc = acc"
| "parse_digits (c # cs) acc =
     (case digit_val c of
        None \<Rightarrow> acc
      | Some d \<Rightarrow> parse_digits cs (Some (10 * (case acc of None \<Rightarrow> 0 | Some a \<Rightarrow> a) + d)))"

definition parseInt :: "string \<Rightarrow> int option" where
  "parseInt s =
     (case dropWhile is_space s of
        [] \<Rightarrow> None
      | c # cs \<Rightarrow>
          if c = CHR ''-'' then map_option (\<lambda>n. - int n) (parse_digits cs None)
          else if c = CHR ''+'' then map_option int (parse_digits cs None)
          else map_option int (parse_digits (c # cs) None))"

subsection \<open>Events and their handlers\<close>

text \<open>An exception: the \<open>name\<close> of the error, and the message of a plain \<open>Error\<close>.\<close>

datatype js_error = TypeError | SyntaxError | AbortError | Error string

text \<open>The \<open>sender\<close> of a typing event.\<close>

record TypingSender =
  s_user_id :: int
  s_full_name :: "string option"

text \<open>
  An event of the queue, a \<open>Record<string, unknown>\<close>: its \<open>type\<close>, and one field
  \<open>ev_k\<close> for each key \<open>k\<close> that \<open>poll\<close> or a handler reads, \<open>None\<close> when the key is
  absent. The \<open>id\<close> is read through a cast as the other keys are, so it is \<open>None\<close> for
  an event without an id. \<open>presence\<close> maps a user id, written as a string, to an object
  with a \<open>status\<close>, and is kept as the list of its entries.
\<close>

record Event =
  ev_id :: "int option"
  ev_type :: string
  ev_message :: "RawMessage option"
  ev_message_id :: "int option"
  ev_rendered_content :: "string option"
  ev_content :: "string option"
  ev_subject :: "string option"
  ev_topic :: "string option"
  ev_message_ids :: "int list option"
  ev_message_type :: "string option"
  ev_stream_id :: "int option"
  ev_op :: "string option"
  ev_sender :: "TypingSender option"
  ev_presence :: "(string \<times> string option) list option"

text \<open>The stores that the handlers read and write.\<close>

record Stores =
  messages :: "TheaterMessage list"
  typing :: TypingStore
  presence :: PresenceStore
  users :: UsersStore

text \<open>
  \<open>handleMessageEvent\<close>. Without a \<open>message\<close> key, \<open>msg\<close> is \<open>undefined\<close> and the first
  property read in \<open>toTheaterMessage\<close> throws a \<open>TypeError\<close>.
\<close>

definition handleMessageEvent :: "Event \<Rightarrow> Stores \<Rightarrow> js_error + Stores" where
  "handleMessageEvent event st =
     (case ev_message event of
        None \<Rightarrow> Inl TypeError
      | Some msg \<Rightarrow>
          (let theaterMsg = toTheaterMessage (users st) msg
           in Inr (st\<lparr>messages := addMessage theaterMsg (messages st)\<rparr>)))"

text \<open>
  \<open>handleUpdateMessageEvent\<close>. With \<open>message_id\<close> absent, \<open>m.id === undefined\<close> holds
  for no stored message and \<open>updateMessage\<close> maps every message to itself.
\<close>

definition update_of_event :: "Event \<Rightarrow> MessagePatch" where
  "update_of_event event =
     (let updates0 = no_patch;
          updates1 = (case ev_rendered_content event of
                        Some r \<Rightarrow> updates0\<lparr>p_rendered_content := Some r\<rparr>
                      | None \<Rightarrow> updates0);
          updates2 = (case ev_content event of
                        Some c \<Rightarrow> updates1\<lparr>p_content := Some c\<rparr>
                      | None \<Rightarrow> updates1);
          updates3 = (if ev_subject event \<noteq> None \<or> ev_topic event \<noteq> None
                      then updates2\<lparr>p_topic := Some (orelse (ev_subject event) (ev_topic event))\<rparr>
                      else updates2)
      in updates3)"

definition handleUpdateMessageEvent :: "Event \<Rightarrow> Stores \<Rightarrow> Stores" where
  "handleUpdateMessageEvent event st =
     (let updates = update_of_event event
      in if updates \<noteq> no_patch
         then (case ev_message_id event of
                 Some messageId \<Rightarrow> st\<lparr>messages := updateMessage messageId updates (messages st)\<rparr>
               | None \<Rightarrow> st)
         else st)"

text \<open>\<open>handleDeleteMessageEvent\<close>. Iterating an absent \<open>message_ids\<close> throws a \<open>TypeError\<close>.\<close>

definition handleDeleteMessageEvent :: "Event \<Rightarrow> Stores \<Rightarrow> js_error + Stores" where
  "handleDeleteMessageEvent event st =
     (case ev_message_ids event of
        None \<Rightarrow> Inl TypeError
      | Some messageIds \<Rightarrow> Inr (st\<lparr>messages := fold removeMessage messageIds (messages st)\<rparr>))"

text \<open>An absent value in a template string prints as \<open>undefined\<close>.\<close>

definition tmpl_num :: "int option \<Rightarrow> string" where
  "tmpl_num v = (case v of Some i \<Rightarrow> num_str i | None \<Rightarrow> ''undefined'')"

definition tmpl_str :: "string option \<Rightarrow> string" where
  "tmpl_str v = (case v of Some x \<Rightarrow> x | None \<Rightarrow> ''undefined'')"

definition handleTypingEvent :: "Event \<Rightarrow> Stores \<Rightarrow> Stores" where
  "handleTypingEvent event st =
     (if ev_message_type event \<noteq> Some ''stream'' then st
      else case ev_sender event of
             None \<Rightarrow> st
           | Some sender \<Rightarrow>
               (let key = tmpl_num (ev_stream_id event) @ '':'' @ tmpl_str (ev_topic event);
                    typist = \<lparr>typist_user_id = s_user_id sender,
                              typist_full_name =
                                (case s_full_name sender of Some n \<Rightarrow> n | None \<Rightarrow> ''Someone''),
                              typist_persona_name = None\<rparr>
                in if ev_op event = Some ''start''
                   then st\<lparr>typing := addTypist key typist (typing st)\<rparr>
                   else st\<lparr>typing := removeTypist key (s_user_id sender) (typing st)\<rparr>))"

text \<open>\<open>data.status || "offline"\<close>: an absent and an empty status are falsy.\<close>

definition status_or_offline :: "string option \<Rightarrow> string" where
  "status_or_offline v = (case v of None \<Rightarrow> ''offline'' | Some x \<Rightarrow> if x = [] then ''offline'' else x)"

definition handlePresenceEvent :: "Event \<Rightarrow> Stores \<Rightarrow> Stores" where
  "handlePresenceEvent event st =
     (case ev_presence event of
        None \<Rightarrow> st
      | Some presenceData \<Rightarrow>
          st\<lparr>presence :=
               fold (\<lambda>(userIdStr, data). setPresence (parseInt userIdStr) (status_or_offline data))
                 presenceData (presence st)\<rparr>)"

definition dispatchEvent :: "Event \<Rightarrow> Stores \<Rightarrow> js_error + Stores" where
  "dispatchEvent event st =
     (let eventType = ev_type event
      in if eventType = ''message'' then handleMessageEvent event st
         else if eventType = ''update_message'' then Inr (handleUpdateMessageEvent event st)
         else if eventType = ''delete_message'' then handleDeleteMessageEvent event st
         else if eventType = ''typing'' then Inr (handleTypingEvent event st)
         else if eventType = ''presence'' then Inr (handlePresenceEvent event st)
         else if eventType = ''reaction'' then Inr st
         else Inr st)"

subsection \<open>The long-poll loop\<close>

text \<open>
  The module's variables. The stores are the type parameter, and \<open>poll\<close> below takes
  the dispatcher as an argument; the client's \<open>poll\<close> is the instance with
  \<open>dispatchEvent\<close> on \<open>Stores\<close>. \<open>abortController\<close> tells whether a controller is held.
\<close>

record 's Handler =
  eventQueueId :: "string option"
  lastEventId :: number
  isPolling :: bool
  abortController :: bool
  stores :: 's

text \<open>What the module does to the outside, in the order it does it.\<close>

datatype effect =
    FetchEvents string number
  | FetchDelete string
  | Abort
  | ConsoleError string
  | Reload
  | SetTimeoutPoll nat

text \<open>
  What the awaited \<open>fetch\<close> and \<open>response.json()\<close> produce: a rejected promise, or a
  response with its status and a body that parses or not. \<open>events\<close> may be absent.
\<close>

datatype body = BadJson | Json "Event list option"

datatype poll_outcome = FetchRejected js_error | Response nat body

definition ok :: "nat \<Rightarrow> bool" where
  "ok status' = (200 \<le> status' \<and> status' \<le> 299)"

text \<open>How \<open>poll\<close> ends: it returns, calls itself, or sets a timer that calls it.\<close>

datatype continuation = Return | PollNow | PollLater nat

text \<open>\<open>!eventQueueId\<close>: \<open>null\<close> and the empty string are falsy.\<close>

definition no_queue :: "string option \<Rightarrow> bool" where
  "no_queue q = (case q of None \<Rightarrow> True | Some x \<Rightarrow> x = [])"

text \<open>
  The \<open>for\<close> loop over \<open>data.events\<close>: \<open>lastEventId\<close> becomes
  \<open>Math.max(lastEventId, eventId)\<close> before the event is dispatched, which is \<open>NaN\<close> for
  an event without an id; an exception of the dispatcher leaves the loop with the
  events after it not dispatched.
\<close>

fun process_events ::
    "(Event \<Rightarrow> 's \<Rightarrow> js_error + 's) \<Rightarrow> Event list \<Rightarrow> number \<Rightarrow> 's \<Rightarrow>
     js_error option \<times> number \<times> 's" where
  "process_events disp [] l st = (None, l, st)"
| "process_events disp (event # rest) l st =
     (let eventId = to_number (ev_id event);
          l' = Math_max l eventId
      in case disp event st of
           Inl err \<Rightarrow> (Some err, l', st)
         | Inr st' \<Rightarrow> process_events disp rest l' st')"

text \<open>The \<open>catch\<close> block, and the end of the \<open>try\<close> block.\<close>

definition catch :: "'s Handler \<Rightarrow> js_error \<Rightarrow> 's Handler \<times> effect list \<times> continuation" where
  "catch h err =
     (if err = AbortError then (h, [], Return)
      else (h, [ConsoleError ''Event poll error:''] @
                (if isPolling h then [SetTimeoutPoll 5000] else []),
            if isPolling h then PollLater 5000 else Return))"

definition continue :: "'s Handler \<Rightarrow> 's Handler \<times> effect list \<times> continuation" where
  "continue h = (h, [], if isPolling h then PollNow else Return)"

text \<open>
  \<open>poll\<close> up to the \<open>await\<close>: the guard, the new controller and the request; \<open>None\<close>
  when the guard returns.
\<close>

definition poll_begin :: "'s Handler \<Rightarrow> ('s Handler \<times> effect) option" where
  "poll_begin h =
     (if \<not> isPolling h \<or> no_queue (eventQueueId h) then None
      else Some (h\<lparr>abortController := True\<rparr>,
                 FetchEvents (the (eventQueueId h)) (lastEventId h)))"

text \<open>\<open>poll\<close> from the \<open>await\<close> on, given what the request produced.\<close>

definition poll_resume ::
    "(Event \<Rightarrow> 's \<Rightarrow> js_error + 's) \<Rightarrow> 's Handler \<Rightarrow> poll_outcome \<Rightarrow>
     's Handler \<times> effect list \<times> continuation" where
  "poll_resume disp h out =
     (case out of
        FetchRejected err \<Rightarrow> catch h err
      | Response status' b \<Rightarrow>
          if \<not> ok status' then
            (if status' = 400
             then (h, [ConsoleError ''Event queue expired, reloading...'', Reload], Return)
             else catch h (Error (''Event poll failed: '' @ digits status')))
          else
            (case b of
               BadJson \<Rightarrow> catch h SyntaxError
             | Json None \<Rightarrow> continue h
             | Json (Some events) \<Rightarrow>
                 (case process_events disp events (lastEventId h) (stores h) of
                    (None, l, st) \<Rightarrow> continue (h\<lparr>lastEventId := l, stores := st\<rparr>)
                  | (Some err, l, st) \<Rightarrow> catch (h\<lparr>lastEventId := l, stores := st\<rparr>) err)))"

text \<open>
  The chain of \<open>poll\<close> calls, given the outcomes of its requests in order: each call
  that passes the guard sends one request and takes the next outcome; the chain ends
  when a call returns, and stands with a request in flight when the outcomes run out.
  The result is the module's state and every effect so far.
\<close>

fun run_polls ::
    "(Event \<Rightarrow> 's \<Rightarrow> js_error + 's) \<Rightarrow> 's Handler \<Rightarrow> poll_outcome list \<Rightarrow>
     's Handler \<times> effect list" where
  "run_polls disp h [] =
     (case poll_begin h of
        None \<Rightarrow> (h, [])
      | Some (h1, req) \<Rightarrow> (h1, [req]))"
| "run_polls disp h (out # outs) =
     (case poll_begin h of
        None \<Rightarrow> (h, [])
      | Some (h1, req) \<Rightarrow>
          (case poll_resume disp h1 out of
             (h2, effs, Return) \<Rightarrow> (h2, req # effs)
           | (h2, effs, _) \<Rightarrow>
               (let (h3, effs') = run_polls disp h2 outs in (h3, req # effs @ effs'))))"

text \<open>\<open>startPolling\<close>, \<open>initializeEventHandler\<close> and \<open>cleanupEventHandler\<close>.\<close>

definition startPolling ::
    "(Event \<Rightarrow> 's \<Rightarrow> js_error + 's) \<Rightarrow> 's Handler \<Rightarrow> poll_outcome list \<Rightarrow>
     's Handler \<times> effect list" where
  "startPolling disp h outs =
     (if no_queue (eventQueueId h) \<or> isPolling h then (h, [])
      else run_polls disp (h\<lparr>isPolling := True\<rparr>) outs)"

definition initializeEventHandler ::
    "(Event \<Rightarrow> 's \<Rightarrow> js_error + 's) \<Rightarrow> string \<Rightarrow> number \<Rightarrow> 's Handler \<Rightarrow> poll_outcome list \<Rightarrow>
     's Handler \<times> effect list" where
  "initializeEventHandler disp queueId initialEventId h outs =
     startPolling disp (h\<lparr>eventQueueId := Some queueId, lastEventId := initialEventId\<rparr>) outs"

definition cleanupEventHandler :: "'s Handler \<Rightarrow> 's Handler \<times> effect list" where
  "cleanupEventHandler h =
     (let h1 = h\<lparr>isPolling := False\<rparr>;
          (h2, effs) = (if abortController h1 then (h1\<lparr>abortController := False\<rparr>, [Abort])
                        else (h1, []))
      in (h2, effs @ (if no_queue (eventQueueId h2) then []
                      else [FetchDelete (the (eventQueueId h2))])))"

text \<open>
  A dispatcher together with a log of its calls: \<open>traced disp\<close> dispatches as \<open>disp\<close>
  does and, when the dispatch has returned, appends the id of the event to the log.
\<close>

definition traced ::
    "(Event \<Rightarrow> 's \<Rightarrow> js_error + 's) \<Rightarrow> Event \<Rightarrow> int option list \<times> 's \<Rightarrow>
     js_error + int option list \<times> 's" where
  "traced disp event p =
     (case disp event (snd p) of
        Inl err \<Rightarrow> Inl err
      | Inr st' \<Rightarrow> Inr (fst p @ [ev_id event], st'))"

text \<open>The \<open>last_event_id\<close> parameters of the poll requests among the effects, in order.\<close>

fun requested :: "effect list \<Rightarrow> number list" where
  "requested [] = []"
| "requested (FetchEvents q l # effs) = l # requested effs"
| "requested (e # effs) = requested effs"

subsection \<open>Initial values\<close>

text \<open>
  The values the modules start with: \<open>writable([])\<close> and \<open>writable(new Map())\<close> for the
  stores, an empty \<open>timeouts\<close> map, and \<open>eventQueueId = null\<close>, \<open>lastEventId = -1\<close>,
  \<open>isPolling = false\<close>, \<open>abortController = null\<close> for the handler. The runtime has no
  timer pending; its first handle is 1.
\<close>

definition empty_typing :: TypingStore where
  "empty_typing =
     \<lparr>typists = Map.empty, timeouts = Map.empty, timers = [], next_handle = 1, now = 0\<rparr>"

definition empty_stores :: Stores where
  "empty_stores =
     \<lparr>messages = [], typing = empty_typing, presence = Map.empty, users = Map.empty\<rparr>"

definition initial_handler :: "'s \<Rightarrow> 's Handler" where
  "initial_handler st =
     \<lparr>eventQueueId = None, lastEventId = Finite (- 1), isPolling = False,
      abortController = False,
      stores = st\<rparr>"

text \<open>
  A sequence of calls of the typing store, with time passing between them:
  \<open>Elapse d\<close> lets \<open>d\<close> milliseconds pass.
\<close>

datatype typing_op = Start string Typist | Stop string int | Elapse nat

fun typing_call :: "typing_op \<Rightarrow> TypingStore \<Rightarrow> TypingStore" where
  "typing_call (Start key typist) s = addTypist key typist s"
| "typing_call (Stop key userId) s = removeTypist key userId s"
| "typing_call (Elapse d) s = advance (now s + d) s"

definition typing_calls :: "typing_op list \<Rightarrow> TypingStore \<Rightarrow> TypingStore" where
  "typing_calls ops s = fold typing_call ops s"

text \<open>A call that is neither a start nor a stop for the user \<open>userId\<close> under \<open>key\<close>.\<close>

fun other_key :: "string \<Rightarrow> int \<Rightarrow> typing_op \<Rightarrow> bool" where
  "other_key key userId (Start k typist) = (k \<noteq> key \<or> typist_user_id typist \<noteq> userId)"
| "other_key key userId (Stop k u) = (k \<noteq> key \<or> u \<noteq> userId)"
| "other_key key userId (Elapse d) = True"

text \<open>Whether the user is listed as typing under the key.\<close>

definition is_typing :: "string \<Rightarrow> int \<Rightarrow> TypingStore \<Rightarrow> bool" where
  "is_typing key userId s =
     (case typists s key of
        None \<Rightarrow> False
      | Some ts \<Rightarrow> userId \<in> typist_user_id ` set ts)"

text \<open>The time that passes in a sequence of calls.\<close>

fun elapsed :: "typing_op list \<Rightarrow> nat" where
  "elapsed [] = 0"
| "elapsed (Elapse d # ops) = d + elapsed ops"
| "elapsed (c # ops) = elapsed ops"

text \<open>
  The invariant of the typing store and its timers: every pending timer is the one
  registered in \<open>timeouts\<close> under its key, a registered handle has been issued, and no
  handle is registered under two keys.
\<close>

definition typing_inv :: "TypingStore \<Rightarrow> bool" where
  "typing_inv s =
     ((\<forall>x \<in> set (timers s). timeouts s (timeoutKey (cb_key x) (cb_userId x)) = Some (handle x)) \<and>
      (\<forall>k h. timeouts s k = Some h \<longrightarrow> h < next_handle s) \<and>
      (\<forall>k k' h. timeouts s k = Some h \<longrightarrow> timeouts s k' = Some h \<longrightarrow> k = k'))"

text \<open>
  \<open>armed\<close>: the user is listed under the key and a timer for the pair is pending, with
  the deadline \<open>D\<close> and no other. \<open>gone\<close>: the user is not listed and no timer for the
  pair is pending.
\<close>

definition timer_for :: "string \<Rightarrow> int \<Rightarrow> Timer \<Rightarrow> bool" where
  "timer_for key userId x = (cb_key x = key \<and> cb_userId x = userId)"

definition armed :: "string \<Rightarrow> int \<Rightarrow> nat \<Rightarrow> TypingStore \<Rightarrow> bool" where
  "armed key userId D s =
     (is_typing key userId s \<and>
      (\<exists>x \<in> set (timers s). timer_for key userId x) \<and>
      (\<forall>x \<in> set (timers s). timer_for key userId x \<longrightarrow> deadline x = D))"

definition gone :: "string \<Rightarrow> int \<Rightarrow> TypingStore \<Rightarrow> bool" where
  "gone key userId s =
     (\<not> is_typing key userId s \<and> (\<forall>x \<in> set (timers s). \<not> timer_for key userId x))"

subsection \<open>Sample values\<close>

text \<open>A raw stream message and an event with no payload, for concrete instances.\<close>

definition sample_raw :: "int \<Rightarrow> int \<Rightarrow> string \<Rightarrow> WhisperRecipients nullable \<Rightarrow> RawMessage" where
  "sample_raw i sender text' whisper =
     \<lparr>raw_id = i, raw_type = ''stream'', raw_sender_id = sender,
      raw_sender_full_name = ''Iago'', raw_sender_email = ''iago@zulip.com'',
      raw_avatar_url = None, raw_content = text', raw_rendered_content = None,
      raw_timestamp = 0, raw_stream_id = Some 1, raw_subject = Some ''X'', raw_topic = None,
      raw_persona_id = None, raw_persona_display_name = None, raw_persona_avatar_url = None,
      raw_persona_color = None, raw_puppet_display_name = None, raw_puppet_avatar_url = None,
      raw_whisper_recipients = whisper, raw_flags = None\<rparr>"

definition sample_message :: "int \<Rightarrow> string \<Rightarrow> TheaterMessage" where
  "sample_message i text' = toTheaterMessage Map.empty (sample_raw i 7 text' Undefined)"

definition bare_event :: "int \<Rightarrow> string \<Rightarrow> Event" where
  "bare_event i type' =
     \<lparr>ev_id = Some i, ev_type = type', ev_message = None, ev_message_id = None,
      ev_rendered_content = None, ev_content = None, ev_subject = None, ev_topic = None,
      ev_message_ids = None, ev_message_type = None, ev_stream_id = None, ev_op = None,
      ev_sender = None, ev_presence = None\<rparr>"

definition polling_handler :: "int \<Rightarrow> Stores Handler" where
  "polling_handler l =
     (initial_handler empty_stores)
       \<lparr>eventQueueId := Some ''queue'', lastEventId := Finite l, isPolling := True,
        abortController := True\<rparr>"

definition message_event :: "int \<Rightarrow> RawMessage \<Rightarrow> Event" where
  "message_event i raw = (bare_event i ''message'')\<lparr>ev_message := Some raw\<rparr>"

definition two_messages :: Stores where
  "two_messages = empty_stores\<lparr>messages := [sample_message 1 ''a'', sample_message 2 ''b'']\<rparr>"

definition edit_event :: "int \<Rightarrow> string \<Rightarrow> Event" where
  "edit_event i text' =
     (bare_event 9 ''update_message'')\<lparr>ev_message_id := Some i, ev_content := Some text'\<rparr>"

subsection \<open>The whisper resolver\<close>

text \<open>An absent array of recipients lists nobody.\<close>

definition listed :: "int list option \<Rightarrow> int list" where
  "listed v = (case v of Some xs \<Rightarrow> xs | None \<Rightarrow> [])"

text \<open>
  Modelled from the spec: the whisper resolver \<open>isVisible(message, viewer)\<close> of the
  specification, which the client's source does not contain. A message without
  whisper recipients is visible; a whisper is visible to its sender, to the users
  listed in \<open>user_ids\<close> and to the current members of the groups listed in \<open>group_ids\<close>,
  and to nobody else. The message of the client carries no puppet or persona
  recipients, so the two steps over them grant nothing. \<open>members\<close> is the recipient
  directory's \<open>resolveGroupMembers\<close>.
\<close>

definition isVisible :: "(int \<Rightarrow> int list) \<Rightarrow> TheaterMessage \<Rightarrow> int \<Rightarrow> bool" where
  "isVisible members message viewer =
     (case whisper_recipients message of
        None \<Rightarrow> True
      | Some whisper \<Rightarrow>
          viewer = sender_id message
          \<or> viewer \<in> set (listed (user_ids whisper))
          \<or> list_ex (\<lambda>g. viewer \<in> set (members g)) (listed (group_ids whisper)))"

section \<open>Properties\<close>

subsection \<open>The messages store and the message handlers\<close>

lemma set_dedupe: "set (dedupe seen ms) \<subseteq> set ms"
  by (induction ms arbitrary: seen) auto

lemma sorted_dedupe: "sorted (map msg_id ms) \<Longrightarrow> sorted (map msg_id (dedupe seen ms))"
proof (induction ms arbitrary: seen)
  case Nil then show ?case by simp
next
  case (Cons m ms)
  then show ?case using set_dedupe [of "insert (msg_id m) seen" ms] by auto
qed

lemma dedupe_ids: "msg_id ` set (dedupe seen ms) \<inter> seen = {}"
  by (induction ms arbitrary: seen) auto

lemma distinct_dedupe: "distinct (map msg_id (dedupe seen ms))"
proof (induction ms arbitrary: seen)
  case Nil then show ?case by simp
next
  case (Cons m ms)
  show ?case using Cons.IH dedupe_ids [of "insert (msg_id m) seen" ms] by auto
qed

lemma find_dedupe:
  "find (\<lambda>m. msg_id m = i) (dedupe seen ms) = (if i \<in> seen then None else find (\<lambda>m. msg_id m = i) ms)"
  by (induction ms arbitrary: seen) auto

lemma find_filter_hd: "find P xs = (case filter P xs of [] \<Rightarrow> None | x # _ \<Rightarrow> Some x)"
  by (induction xs) auto

lemma find_sort_by_id: "find (\<lambda>m. msg_id m = i) (sort_by_id ms) = find (\<lambda>m. msg_id m = i) ms"
  by (simp add: find_filter_hd sort_by_id_def sort_key_stable)

lemma sorted_store_call:
  "keeps_id c \<Longrightarrow> sorted (map msg_id ms) \<Longrightarrow> sorted (map msg_id (store_call c ms))"
proof (cases c)
  case (UpdateMessage i u)
  assume "keeps_id c" 
  with UpdateMessage have "p_id u = None" by simp
  then have "map msg_id (updateMessage i u ms) = map msg_id ms"
    by (simp add: updateMessage_def apply_patch_def overwrite_def)
  moreover assume "sorted (map msg_id ms)"
  ultimately show ?thesis using UpdateMessage by simp
next
  case (MarkAsRead i)
  have "map msg_id (markAsRead i ms) = map msg_id ms"
    by (simp add: markAsRead_def)
  moreover assume "sorted (map msg_id ms)"
  ultimately show ?thesis using MarkAsRead by simp
next
  case (RemoveMessage i)
  assume "sorted (map msg_id ms)"
  then show ?thesis using RemoveMessage by (simp add: removeMessage_def sorted_filter)
qed (simp_all add: addMessage_def addMessages_def prependMessages_def sort_by_id_def sorted_dedupe)

lemma sorted_store_calls:
  "list_all keeps_id cs \<Longrightarrow> sorted (map msg_id ms) \<Longrightarrow> sorted (map msg_id (store_calls cs ms))"
  unfolding store_calls_def
  by (induction cs arbitrary: ms) (simp_all add: sorted_store_call)


text \<open>
  Claim C10, as the store has it. From the empty store, after any sequence of
  \<open>addMessage\<close>, \<open>addMessages\<close>, \<open>prependMessages\<close>, \<open>updateMessage\<close> with a patch that
  leaves the id alone, \<open>removeMessage\<close> and \<open>markAsRead\<close>, the messages are sorted by id.
  After \<open>addMessages\<close> and after \<open>prependMessages\<close>, from any store, no two messages
  share an id. For each id, \<open>addMessages\<close> keeps the first message with that id of the
  store followed by the new messages, so the copy of the store wins;
  \<open>prependMessages\<close> keeps the first of the new messages followed by the store, so the
  incoming copy wins.
\<close>

theorem store_sorted_deduped:
  "(list_all keeps_id cs \<longrightarrow> sorted (map msg_id (store_calls cs []))) \<and>
   distinct (map msg_id (addMessages ns ms)) \<and>
   distinct (map msg_id (prependMessages ns ms)) \<and>
   find (\<lambda>m. msg_id m = i) (addMessages ns ms) = find (\<lambda>m. msg_id m = i) (ms @ ns) \<and>
   find (\<lambda>m. msg_id m = i) (prependMessages ns ms) = find (\<lambda>m. msg_id m = i) (ns @ ms)"
proof -
  have "list_all keeps_id cs \<longrightarrow> sorted (map msg_id (store_calls cs []))"
    using sorted_store_calls [of cs "[]"] by simp
  moreover have "distinct (map msg_id (addMessages ns ms))"
    and "distinct (map msg_id (prependMessages ns ms))"
    by (simp_all add: addMessages_def prependMessages_def distinct_dedupe)
  moreover have "find (\<lambda>m. msg_id m = i) (addMessages ns ms) = find (\<lambda>m. msg_id m = i) (ms @ ns)"
    by (simp only: addMessages_def find_dedupe find_sort_by_id empty_iff if_False)
  moreover have "find (\<lambda>m. msg_id m = i) (prependMessages ns ms) = find (\<lambda>m. msg_id m = i) (ns @ ms)"
    by (simp only: prependMessages_def find_dedupe find_sort_by_id empty_iff if_False)
  ultimately show ?thesis by blast
qed

text \<open>An instance: two inserts out of order, an edit and a prepend.\<close>

theorem store_sorted_deduped_witness:
  "list_all keeps_id
     [AddMessage (sample_message 2 ''b''), AddMessage (sample_message 1 ''a''),
      UpdateMessage 1 (no_patch\<lparr>p_content := Some ''c''\<rparr>),
      PrependMessages [sample_message 1 ''z'']] \<and>
   sorted (map msg_id (store_calls
     [AddMessage (sample_message 2 ''b''), AddMessage (sample_message 1 ''a''),
      UpdateMessage 1 (no_patch\<lparr>p_content := Some ''c''\<rparr>),
      PrependMessages [sample_message 1 ''z'']] []))"
proof -
  have h: "list_all keeps_id
     [AddMessage (sample_message 2 ''b''), AddMessage (sample_message 1 ''a''),
      UpdateMessage 1 (no_patch\<lparr>p_content := Some ''c''\<rparr>),
      PrependMessages [sample_message 1 ''z'']]"
    by (simp add: no_patch_def)
  show ?thesis
    using h store_sorted_deduped [of "[AddMessage (sample_message 2 ''b''), AddMessage (sample_message 1 ''a''),
      UpdateMessage 1 (no_patch\<lparr>p_content := Some ''c''\<rparr>),
      PrependMessages [sample_message 1 ''z'']]" "[]" "[]" 0]
    by blast
qed

lemma toTheaterMessage_sel:
  "msg_id (toTheaterMessage us raw) = raw_id raw"
  "content (toTheaterMessage us raw) = raw_content raw"
  "sender_id (toTheaterMessage us raw) = raw_sender_id raw"
  "whisper_recipients (toTheaterMessage us raw) = or_null (raw_whisper_recipients raw)"
  "isWhisper (toTheaterMessage us raw) =
     (raw_whisper_recipients raw \<noteq> Null \<and> raw_whisper_recipients raw \<noteq> Undefined)"
  by (simp_all add: toTheaterMessage_def Let_def)

lemma sample_message_id: "msg_id (sample_message i t) = i"
  by (simp add: sample_message_def sample_raw_def toTheaterMessage_sel)

lemma sample_message_content: "content (sample_message i t) = t"
  by (simp add: sample_message_def sample_raw_def toTheaterMessage_sel)

text \<open>
  The store holds message 1 with content \<open>old\<close>; \<open>prependMessages\<close> of a message 1 with
  content \<open>new\<close> leaves only the new one: on this collision the copy of the store is
  dropped.
\<close>

theorem prepend_keeps_incoming_copy:
  "store_calls [AddMessage (sample_message 1 ''old'')] [] = [sample_message 1 ''old''] \<and>
   prependMessages [sample_message 1 ''new''] [sample_message 1 ''old'']
     = [sample_message 1 ''new''] \<and>
   sample_message 1 ''old'' \<notin> set (prependMessages [sample_message 1 ''new''] [sample_message 1 ''old''])"
proof -
  have ne: "sample_message 1 ''old'' \<noteq> sample_message 1 ''new''"
  proof
    assume "sample_message 1 ''old'' = sample_message 1 ''new''"
    then have "content (sample_message 1 ''old'') = content (sample_message 1 ''new'')"
      by simp
    then show False by (simp add: sample_message_content)
  qed
  have a: "store_calls [AddMessage (sample_message 1 ''old'')] [] = [sample_message 1 ''old'']"
    by (simp add: store_calls_def addMessage_def sort_by_id_def)
  have b: "prependMessages [sample_message 1 ''new''] [sample_message 1 ''old'']
     = [sample_message 1 ''new'']"
    by (simp add: prependMessages_def sort_by_id_def sample_message_id)
  from a b ne show ?thesis by simp
qed

lemma dispatch_message_event:
  "dispatchEvent (message_event i raw) st =
     Inr (st\<lparr>messages := addMessage (toTheaterMessage (users st) raw) (messages st)\<rparr>)"
  by (simp add: dispatchEvent_def handleMessageEvent_def message_event_def bare_event_def Let_def)

text \<open>
  Claim C3 at a concrete input: the same \<open>message\<close> event for message 1, dispatched
  twice from the empty store, leaves two stored messages with id 1. \<open>addMessage\<close>
  appends and sorts; it does not drop a message whose id is stored already, as
  \<open>addMessages\<close> and \<open>prependMessages\<close> do.
\<close>

theorem message_event_twice_two_copies:
  "map msg_id (messages (snd (snd (process_events dispatchEvent
      [message_event 1 (sample_raw 1 7 ''hello'' Undefined),
       message_event 1 (sample_raw 1 7 ''hello'' Undefined)] (Finite (- 1)) empty_stores)))) = [1, 1]"
  by (simp add: dispatch_message_event empty_stores_def addMessage_def sort_by_id_def
      toTheaterMessage_sel sample_raw_def)

text \<open>
  Claim C1, as the handler has it. A \<open>message\<close> event with a payload always succeeds
  and adds the converted message to the store, whatever its whisper recipients; the
  handler consults no viewer and no visibility predicate.
\<close>

theorem message_event_stored_unconditionally:
  "\<exists>st'. dispatchEvent (message_event i raw) st = Inr st' \<and>
     toTheaterMessage (users st) raw \<in> set (messages st') \<and>
     length (messages st') = Suc (length (messages st))"
  by (simp add: dispatch_message_event addMessage_def sort_by_id_def)

text \<open>
  A whisper of user 7 to user 10 alone: it is stored, and it is not visible to viewer
  99, who is not the sender, is not listed and is in no listed group.
\<close>

theorem invisible_whisper_is_stored:
  "dispatchEvent
     (message_event 1 (sample_raw 1 7 ''secret'' (Value \<lparr>user_ids = Some [10], group_ids = None\<rparr>)))
     empty_stores
   = Inr (empty_stores\<lparr>messages :=
       [toTheaterMessage Map.empty
          (sample_raw 1 7 ''secret'' (Value \<lparr>user_ids = Some [10], group_ids = None\<rparr>))]\<rparr>) \<and>
   \<not> isVisible (\<lambda>g. [])
       (toTheaterMessage Map.empty
          (sample_raw 1 7 ''secret'' (Value \<lparr>user_ids = Some [10], group_ids = None\<rparr>))) 99"
  by (simp add: dispatch_message_event empty_stores_def addMessage_def sort_by_id_def
      isVisible_def toTheaterMessage_sel sample_raw_def listed_def)

lemma apply_update_frame:
  "(apply_patch m (update_of_event ev))
     \<lparr>content := content m, rendered_content := rendered_content m, topic := topic m\<rparr> = m"
  by (simp add: apply_patch_def update_of_event_def no_patch_def overwrite_def Let_def
      split: option.splits)

lemma updateMessage_length: "length (updateMessage i u ms) = length ms"
  by (simp add: updateMessage_def)

lemma updateMessage_nth:
  "k < length ms \<Longrightarrow>
   updateMessage i u ms ! k = (if msg_id (ms ! k) = i then apply_patch (ms ! k) u else ms ! k)"
  by (simp add: updateMessage_def)

lemma updateMessage_absent: "i \<notin> msg_id ` set ms \<Longrightarrow> updateMessage i u ms = ms"
  unfolding updateMessage_def by (induction ms) auto

lemma handleUpdate_messages:
  "messages (handleUpdateMessageEvent ev st) = messages st \<or>
   (\<exists>i. ev_message_id ev = Some i \<and>
     messages (handleUpdateMessageEvent ev st) = updateMessage i (update_of_event ev) (messages st))"
  by (simp add: handleUpdateMessageEvent_def Let_def split: option.splits)

lemma handleUpdate_others:
  "handleUpdateMessageEvent ev st = st\<lparr>messages := messages (handleUpdateMessageEvent ev st)\<rparr>"
  by (simp add: handleUpdateMessageEvent_def Let_def split: option.splits)

lemma update_of_event_type: "update_of_event (ev\<lparr>ev_type := t\<rparr>) = update_of_event ev"
  by (simp add: update_of_event_def Let_def split: option.splits)

lemma handleUpdate_type:
  "handleUpdateMessageEvent (ev\<lparr>ev_type := t\<rparr>) st = handleUpdateMessageEvent ev st"
  by (simp add: handleUpdateMessageEvent_def update_of_event_type Let_def)

text \<open>
  Claim C8. An \<open>update_message\<close> event is handled by \<open>handleUpdateMessageEvent\<close>, which
  changes nothing but the message list and keeps its length. A stored message whose
  id is not the event's \<open>message_id\<close> is unchanged; any stored message is unchanged up
  to its \<open>content\<close>, \<open>rendered_content\<close> and \<open>topic\<close>. When no stored message has that
  id, the stores are unchanged.
\<close>

theorem update_message_frame:
  "dispatchEvent (ev\<lparr>ev_type := ''update_message''\<rparr>) st = Inr (handleUpdateMessageEvent ev st) \<and>
   handleUpdateMessageEvent ev st = st\<lparr>messages := messages (handleUpdateMessageEvent ev st)\<rparr> \<and>
   length (messages (handleUpdateMessageEvent ev st)) = length (messages st) \<and>
   (\<forall>k < length (messages st).
      (ev_message_id ev \<noteq> Some (msg_id (messages st ! k)) \<longrightarrow>
         messages (handleUpdateMessageEvent ev st) ! k = messages st ! k) \<and>
      (messages (handleUpdateMessageEvent ev st) ! k)
        \<lparr>content := content (messages st ! k),
         rendered_content := rendered_content (messages st ! k),
         topic := topic (messages st ! k)\<rparr> = messages st ! k) \<and>
   (ev_message_id ev \<notin> Some ` msg_id ` set (messages st) \<longrightarrow> handleUpdateMessageEvent ev st = st)"
proof (intro conjI allI impI)
  show "dispatchEvent (ev\<lparr>ev_type := ''update_message''\<rparr>) st = Inr (handleUpdateMessageEvent ev st)"
    by (simp add: dispatchEvent_def handleUpdate_type)
  show "handleUpdateMessageEvent ev st = st\<lparr>messages := messages (handleUpdateMessageEvent ev st)\<rparr>"
    by (rule handleUpdate_others)
  show "length (messages (handleUpdateMessageEvent ev st)) = length (messages st)"
    using handleUpdate_messages [of ev st] by (auto simp: updateMessage_length)
next
  fix k assume k: "k < length (messages st)"
    and other: "ev_message_id ev \<noteq> Some (msg_id (messages st ! k))"
  show "messages (handleUpdateMessageEvent ev st) ! k = messages st ! k"
    using handleUpdate_messages [of ev st] k other by (auto simp: updateMessage_nth)
next
  fix k assume k: "k < length (messages st)"
  show "(messages (handleUpdateMessageEvent ev st) ! k)
        \<lparr>content := content (messages st ! k),
         rendered_content := rendered_content (messages st ! k),
         topic := topic (messages st ! k)\<rparr> = messages st ! k"
    using handleUpdate_messages [of ev st] k
    by (auto simp: updateMessage_nth apply_update_frame)
next
  assume absent: "ev_message_id ev \<notin> Some ` msg_id ` set (messages st)"
  have "i \<notin> msg_id ` set (messages st)" if "ev_message_id ev = Some i" for i
    using absent that by force
  then have "messages (handleUpdateMessageEvent ev st) = messages st"
    using handleUpdate_messages [of ev st] by (auto simp: updateMessage_absent)
  then show "handleUpdateMessageEvent ev st = st"
    using handleUpdate_others [of ev st] by simp
qed

text \<open>
  An instance on a store of messages 1 and 2: an edit of message 2 leaves message 1
  as it was, and an edit of the absent message 3 leaves the store as it was.
\<close>

theorem update_message_frame_witness:
  "0 < length (messages two_messages) \<and>
   ev_message_id (edit_event 2 ''c'') \<noteq> Some (msg_id (messages two_messages ! 0)) \<and>
   messages (handleUpdateMessageEvent (edit_event 2 ''c'') two_messages) ! 0
     = messages two_messages ! 0 \<and>
   ev_message_id (edit_event 3 ''c'') \<notin> Some ` msg_id ` set (messages two_messages) \<and>
   handleUpdateMessageEvent (edit_event 3 ''c'') two_messages = two_messages"
proof -
  have ms: "messages two_messages = [sample_message 1 ''a'', sample_message 2 ''b'']"
    by (simp add: two_messages_def)
  have h1: "0 < length (messages two_messages)"
    by (simp add: ms)
  have h2: "ev_message_id (edit_event 2 ''c'') \<noteq> Some (msg_id (messages two_messages ! 0))"
    by (simp add: ms edit_event_def sample_message_id)
  have h3: "ev_message_id (edit_event 3 ''c'') \<notin> Some ` msg_id ` set (messages two_messages)"
    by (simp add: ms edit_event_def sample_message_id)
  have c1: "messages (handleUpdateMessageEvent (edit_event 2 ''c'') two_messages) ! 0
     = messages two_messages ! 0"
    using update_message_frame [of "edit_event 2 ''c''" two_messages, THEN conjunct2,
        THEN conjunct2, THEN conjunct2, THEN conjunct1] h1 h2
    by blast
  have c2: "handleUpdateMessageEvent (edit_event 3 ''c'') two_messages = two_messages"
    using update_message_frame [of "edit_event 3 ''c''" two_messages, THEN conjunct2,
        THEN conjunct2, THEN conjunct2, THEN conjunct2] h3
    by blast
  show ?thesis using h1 h2 h3 c1 c2 by (intro conjI)
qed

lemma whisper_text_empty:
  "formatWhisperRecipientsWithNames us (Some \<lparr>user_ids = None, group_ids = None\<rparr>) = ''whisper''"
  "formatWhisperRecipientsWithNames us (Some \<lparr>user_ids = Some [], group_ids = Some []\<rparr>) = ''whisper''"
  by (simp_all add: formatWhisperRecipientsWithNames_def)

lemma toTheaterMessage_text:
  "whisperRecipientsText (toTheaterMessage us raw) =
     (if raw_whisper_recipients raw \<noteq> Null \<and> raw_whisper_recipients raw \<noteq> Undefined
      then Some (formatWhisperRecipientsWithNames us (or_null (raw_whisper_recipients raw)))
      else None)"
  by (simp add: toTheaterMessage_def Let_def)

text \<open>
  Claim C9. \<open>toTheaterMessage\<close> sets \<open>isWhisper\<close> exactly when \<open>whisper_recipients\<close> is
  neither \<open>null\<close> nor \<open>undefined\<close>; so it is set for every present value, which is kept
  as the message's recipients. For the empty object and for the object with two empty
  arrays the message is a whisper with the label \<open>whisper\<close>. The conversion is total,
  and a \<open>message\<close> event carrying such a message is handled without an exception and
  stores a whisper.
\<close>

theorem present_whisper_recipients_is_whisper:
  "isWhisper (toTheaterMessage us raw)
     = (raw_whisper_recipients raw \<noteq> Null \<and> raw_whisper_recipients raw \<noteq> Undefined) \<and>
   isWhisper (toTheaterMessage us (raw\<lparr>raw_whisper_recipients := Value w\<rparr>)) \<and>
   whisper_recipients (toTheaterMessage us (raw\<lparr>raw_whisper_recipients := Value w\<rparr>)) = Some w \<and>
   isWhisper (toTheaterMessage us
     (raw\<lparr>raw_whisper_recipients := Value \<lparr>user_ids = None, group_ids = None\<rparr>\<rparr>)) \<and>
   whisperRecipientsText (toTheaterMessage us
     (raw\<lparr>raw_whisper_recipients := Value \<lparr>user_ids = None, group_ids = None\<rparr>\<rparr>))
     = Some ''whisper'' \<and>
   isWhisper (toTheaterMessage us
     (raw\<lparr>raw_whisper_recipients := Value \<lparr>user_ids = Some [], group_ids = Some []\<rparr>\<rparr>)) \<and>
   whisperRecipientsText (toTheaterMessage us
     (raw\<lparr>raw_whisper_recipients := Value \<lparr>user_ids = Some [], group_ids = Some []\<rparr>\<rparr>))
     = Some ''whisper'' \<and>
   (\<exists>st'. dispatchEvent (message_event i (raw\<lparr>raw_whisper_recipients := Value w\<rparr>)) st = Inr st' \<and>
      list_ex isWhisper (messages st'))"
proof -
  have stored: "\<exists>st'. dispatchEvent (message_event i (raw\<lparr>raw_whisper_recipients := Value w\<rparr>)) st
      = Inr st' \<and> list_ex isWhisper (messages st')"
    by (simp add: dispatch_message_event addMessage_def sort_by_id_def list_ex_iff
        toTheaterMessage_sel)
  show ?thesis
    using stored by (simp add: toTheaterMessage_sel toTheaterMessage_text whisper_text_empty)
qed

subsection \<open>The long-poll loop\<close>

lemma process_events_Cons:
  "process_events disp (e # es) l st =
     (case disp e st of
        Inl err \<Rightarrow> (Some err, Math_max l (to_number (ev_id e)), st)
      | Inr st' \<Rightarrow> process_events disp es (Math_max l (to_number (ev_id e))) st')"
  by (simp add: Let_def)

declare process_events.simps(2) [simp del]

lemma to_number_simps [simp]:
  "to_number (Some i) = Finite i"
  "to_number None = NaN"
  by (simp_all add: to_number_def)

lemma Max_insert_max:
  "finite A \<Longrightarrow> Max (insert (max a b) A) = Max (insert (a::int) (insert b A))"
  by (cases "A = {}") (simp_all add: max.assoc)

lemma process_events_traced_step:
  "process_events (traced disp) (e # es) l (tr, st) =
     (case disp e st of
        Inl err \<Rightarrow> (Some err, Math_max l (to_number (ev_id e)), tr, st)
      | Inr st' \<Rightarrow>
          process_events (traced disp) es (Math_max l (to_number (ev_id e)))
            (tr @ [ev_id e], st'))"
  by (cases "disp e st") (simp_all add: process_events_Cons traced_def)

lemma process_events_traced_result:
  "process_events disp es l st = (err, l', st') \<Longrightarrow>
   \<exists>k \<le> length es.
     process_events (traced disp) es l (tr, st) = (err, l', tr @ map ev_id (take k es), st') \<and>
     (err = None \<longrightarrow> k = length es)"
proof (induction es arbitrary: l st tr)
  case Nil
  then show ?case by auto
next
  case (Cons e es)
  let ?l = "Math_max l (to_number (ev_id e))"
  show ?case
  proof (cases "disp e st")
    case (Inl x)
    with Cons.prems have r: "err = Some x" "l' = ?l" "st' = st"
      by (simp_all add: process_events_Cons)
    have "process_events (traced disp) (e # es) l (tr, st) = (Some x, ?l, tr, st)"
      using Inl by (simp add: process_events_traced_step)
    with r have "process_events (traced disp) (e # es) l (tr, st)
        = (err, l', tr @ map ev_id (take 0 (e # es)), st') \<and>
        (err = None \<longrightarrow> 0 = length (e # es))"
      by simp
    then show ?thesis by (intro exI [of _ 0]) simp
  next
    case (Inr s1)
    with Cons.prems have rest: "process_events disp es ?l s1 = (err, l', st')"
      by (simp add: process_events_Cons)
    obtain k where k: "k \<le> length es"
      and eq: "process_events (traced disp) es ?l (tr @ [ev_id e], s1)
          = (err, l', (tr @ [ev_id e]) @ map ev_id (take k es), st')"
      and full: "err = None \<longrightarrow> k = length es"
      using Cons.IH [OF rest, of "tr @ [ev_id e]"] by blast
    have "process_events (traced disp) (e # es) l (tr, st)
        = process_events (traced disp) es ?l (tr @ [ev_id e], s1)"
      using Inr by (simp add: process_events_traced_step)
    also note eq
    also have "(tr @ [ev_id e]) @ map ev_id (take k es) = tr @ map ev_id (take (Suc k) (e # es))"
      by simp
    finally have "process_events (traced disp) (e # es) l (tr, st)
        = (err, l', tr @ map ev_id (take (Suc k) (e # es)), st')" .
    moreover have "err = None \<longrightarrow> Suc k = length (e # es)" using full by simp
    moreover have "Suc k \<le> length (e # es)" using k by simp
    ultimately show ?thesis by blast
  qed
qed

lemma process_events_traced:
  "\<exists>k \<le> length es.
     process_events (traced disp) es l (tr, st)
       = (fst (process_events disp es l st), fst (snd (process_events disp es l st)),
          tr @ map ev_id (take k es), snd (snd (process_events disp es l st))) \<and>
     (fst (process_events disp es l st) = None \<longrightarrow> k = length es)"
  by (rule process_events_traced_result) simp

lemma process_events_all:
  "fst (process_events disp es (Finite n) st) = None \<Longrightarrow> list_all (\<lambda>e. ev_id e \<noteq> None) es \<Longrightarrow>
   fst (snd (process_events disp es (Finite n) st))
     = Finite (Max (insert n ((the \<circ> ev_id) ` set es)))"
proof (induction es arbitrary: n st)
  case Nil
  then show ?case by simp
next
  case (Cons e es)
  from Cons.prems(2) obtain i where i: "ev_id e = Some i" and ids: "list_all (\<lambda>e. ev_id e \<noteq> None) es"
    by auto
  show ?case
  proof (cases "disp e st")
    case (Inl err)
    with Cons.prems(1) show ?thesis by (simp add: process_events_Cons)
  next
    case (Inr st')
    with Cons.prems(1) i have "fst (process_events disp es (Finite (max n i)) st') = None"
      by (simp add: process_events_Cons to_number_def)
    then have "fst (snd (process_events disp es (Finite (max n i)) st')) =
               Finite (Max (insert (max n i) ((the \<circ> ev_id) ` set es)))"
      using ids by (rule Cons.IH)
    moreover have "Max (insert (max n i) ((the \<circ> ev_id) ` set es))
        = Max (insert n ((the \<circ> ev_id) ` set (e # es)))"
      using i by (simp add: Max_insert_max)
    ultimately show ?thesis using Inr i by (simp add: process_events_Cons to_number_def)
  qed
qed

lemma catch_fst: "fst (catch h err) = h"
  by (simp add: catch_def)

lemma continue_fst: "fst (continue h) = h"
  by (simp add: continue_def)

lemma poll_resume_state:
  "fst (poll_resume disp h out) =
     (case out of
        Response st (Json (Some es)) \<Rightarrow>
          if ok st
          then h\<lparr>lastEventId := fst (snd (process_events disp es (lastEventId h) (stores h))),
                 stores := snd (snd (process_events disp es (lastEventId h) (stores h)))\<rparr>
          else h
      | _ \<Rightarrow> h)"
  by (simp add: poll_resume_def catch_fst continue_fst
      split: poll_outcome.splits body.splits option.splits prod.splits)

lemma poll_begin_req:
  "poll_begin h = Some (h1, req) \<Longrightarrow> req = FetchEvents (the (eventQueueId h)) (lastEventId h)"
  by (auto simp: poll_begin_def split: if_splits)

lemma run_polls_Cons:
  "poll_begin h = Some (h1, req) \<Longrightarrow> poll_resume disp h1 out = (h2, effs, c) \<Longrightarrow>
   run_polls disp h (out # outs) =
     (if c = Return then (h2, req # effs)
      else (fst (run_polls disp h2 outs), req # effs @ snd (run_polls disp h2 outs)))"
  by (cases c) (simp_all add: split_beta)

lemma requested_append: "requested (xs @ ys) = requested xs @ requested ys"
  by (induction xs rule: requested.induct) simp_all

lemma poll_resume_no_request: "requested (fst (snd (poll_resume disp h out))) = []"
  by (simp add: poll_resume_def catch_def continue_def
      split: poll_outcome.splits body.splits option.splits prod.splits)

lemma run_polls_stops_at_400:
  "run_polls disp h (pre @ Response 400 b # post) = run_polls disp h (pre @ [Response 400 b])"
proof (induction pre arbitrary: h)
  case Nil
  show ?case
    by (simp add: poll_resume_def ok_def split: option.splits)
next
  case (Cons out pre)
  show ?case
  proof (cases "poll_begin h")
    case None
    then show ?thesis by simp
  next
    case (Some p)
    obtain h1 req where p: "p = (h1, req)" by (cases p)
    obtain h2 effs c where r: "poll_resume disp h1 out = (h2, effs, c)"
      by (cases "poll_resume disp h1 out")
    have step: "run_polls disp h (out # zs) =
     (if c = Return then (h2, req # effs)
      else (fst (run_polls disp h2 zs), req # effs @ snd (run_polls disp h2 zs)))" for zs
      using Some p r by (simp only: run_polls_Cons)
    show ?thesis unfolding append_Cons step using Cons.IH [of h2] by simp
  qed
qed

lemma poll_resume_reload:
  "Reload \<in> set (fst (snd (poll_resume disp h out))) \<Longrightarrow> snd (snd (poll_resume disp h out)) = Return"
  by (auto simp: poll_resume_def catch_def continue_def
      split: poll_outcome.splits body.splits option.splits prod.splits if_splits)

lemma poll_resume_reload_last:
  "Reload \<notin> set (butlast (fst (snd (poll_resume disp h out))))"
  by (auto simp: poll_resume_def catch_def continue_def
      split: poll_outcome.splits body.splits option.splits prod.splits if_splits)

lemma run_polls_reload_last:
  "Reload \<notin> set (butlast (snd (run_polls disp h outs)))"
proof (induction outs arbitrary: h)
  case Nil
  show ?case by (auto split: option.splits)
next
  case (Cons out outs)
  show ?case
  proof (cases "poll_begin h")
    case None
    then show ?thesis by simp
  next
    case (Some p)
    obtain h1 req where p: "p = (h1, req)" by (cases p)
    obtain h2 effs c where r: "poll_resume disp h1 out = (h2, effs, c)"
      by (cases "poll_resume disp h1 out")
    have req: "req \<noteq> Reload"
      using Some p poll_begin_req by blast
    have ih: "Reload \<notin> set (butlast (snd (run_polls disp h2 outs)))"
      by (rule Cons.IH)
    have nr: "c \<noteq> Return \<Longrightarrow> Reload \<notin> set effs"
      using poll_resume_reload [of disp h1 out] r by auto
    have one: "Reload \<notin> set (butlast effs)"
      using poll_resume_reload_last [of disp h1 out] r by simp
    have step: "run_polls disp h (out # outs) =
     (if c = Return then (h2, req # effs)
      else (fst (run_polls disp h2 outs), req # effs @ snd (run_polls disp h2 outs)))"
      using Some p r by (simp only: run_polls_Cons)
    show ?thesis unfolding step using req ih nr one
      by (auto simp: butlast_append dest: in_set_butlastD split: if_splits)
  qed
qed

lemma run_polls_requests_to_400:
  "length (requested (snd (run_polls disp h (pre @ [Response 400 b])))) \<le> Suc (length pre)"
proof (induction pre arbitrary: h)
  case Nil
  show ?case
    by (simp add: poll_resume_def ok_def split: option.splits prod.splits effect.splits)
      (auto dest: poll_begin_req)
next
  case (Cons out pre)
  show ?case
  proof (cases "poll_begin h")
    case None
    then show ?thesis by simp
  next
    case (Some p)
    obtain h1 req where p: "p = (h1, req)" by (cases p)
    obtain h2 effs c where r: "poll_resume disp h1 out = (h2, effs, c)"
      by (cases "poll_resume disp h1 out")
    have req: "req = FetchEvents (the (eventQueueId h)) (lastEventId h)"
      using Some p poll_begin_req by metis
    have e: "requested effs = []"
      using poll_resume_no_request [of disp h1 out] r by simp
    have step: "run_polls disp h (out # zs) =
     (if c = Return then (h2, req # effs)
      else (fst (run_polls disp h2 zs), req # effs @ snd (run_polls disp h2 zs)))" for zs
      using Some p r by (simp only: run_polls_Cons)
    show ?thesis unfolding append_Cons step using Cons.IH [of h2] req e
      by (simp add: requested_append)
  qed
qed

lemma dispatch_reaction: "dispatchEvent (bare_event i ''reaction'') st = Inr st"
  by (simp add: dispatchEvent_def bare_event_def)

lemma ev_id_sample:
  "ev_id (bare_event i t) = Some i"
  "ev_id (message_event i raw) = Some i"
  "ev_id ((bare_event i t)\<lparr>ev_message_type := mt\<rparr>) = Some i"
  by (simp_all add: bare_event_def message_event_def)

lemma polling_handler_sel:
  "lastEventId (polling_handler l) = Finite l"
  "stores (polling_handler l) = empty_stores"
  "isPolling (polling_handler l) = True"
  "eventQueueId (polling_handler l) = Some ''queue''"
  by (simp_all add: polling_handler_def initial_handler_def)

lemma empty_stores_sel:
  "messages empty_stores = []"
  "users empty_stores = Map.empty"
  by (simp_all add: empty_stores_def)

lemma three_reactions:
  "process_events dispatchEvent
     [bare_event 5 ''reaction'', bare_event 3 ''reaction'', bare_event 4 ''reaction'']
     (Finite n) st = (None, Finite (max (max (max n 5) 3) 4), st)"
  by (simp add: process_events_Cons dispatch_reaction ev_id_sample to_number_def)

lemma dispatch_reaction_no_id:
  "dispatchEvent ((bare_event i ''reaction'')\<lparr>ev_id := None\<rparr>) st = Inr st"
  by (simp add: dispatchEvent_def bare_event_def)

text \<open>
  Claim C2, as the loop has it. The events of a batch are passed to the dispatcher in
  the order of the \<open>events\<close> array, each at most once, and the batch is not sorted: the
  log of the traced dispatcher grows by the ids of a prefix of the array, in order,
  and the rest of the result is that of the plain dispatcher. The prefix ends before
  the first event whose dispatch throws, and is the whole array when none does. When
  the response is OK and no dispatch throws, the handler's state after the poll has
  the \<open>lastEventId\<close> and the stores the loop ends with; and when in addition
  \<open>lastEventId\<close> is a number and every event of the batch carries an id, that
  \<open>lastEventId\<close> is the maximum of its old value and the ids of the batch.
\<close>

theorem batch_dispatched_in_arrival_order:
  "(\<exists>k \<le> length es.
      process_events (traced disp) es (lastEventId h) (tr, stores h)
        = (fst (process_events disp es (lastEventId h) (stores h)),
           fst (snd (process_events disp es (lastEventId h) (stores h))),
           tr @ map ev_id (take k es),
           snd (snd (process_events disp es (lastEventId h) (stores h)))) \<and>
      (fst (process_events disp es (lastEventId h) (stores h)) = None \<longrightarrow> k = length es)) \<and>
   (ok status' \<and> process_events disp es (lastEventId h) (stores h) = (None, l', st') \<longrightarrow>
      fst (poll_resume disp h (Response status' (Json (Some es))))
        = h\<lparr>lastEventId := l', stores := st'\<rparr>) \<and>
   (process_events disp es (lastEventId h) (stores h) = (None, l', st') \<and>
    lastEventId h = Finite n \<and> list_all (\<lambda>e. ev_id e \<noteq> None) es \<longrightarrow>
      l' = Finite (Max (insert n ((the \<circ> ev_id) ` set es))))"
proof (intro conjI impI)
  show "\<exists>k \<le> length es.
      process_events (traced disp) es (lastEventId h) (tr, stores h)
        = (fst (process_events disp es (lastEventId h) (stores h)),
           fst (snd (process_events disp es (lastEventId h) (stores h))),
           tr @ map ev_id (take k es),
           snd (snd (process_events disp es (lastEventId h) (stores h)))) \<and>
      (fst (process_events disp es (lastEventId h) (stores h)) = None \<longrightarrow> k = length es)"
    by (rule process_events_traced)
next
  assume "ok status' \<and> process_events disp es (lastEventId h) (stores h) = (None, l', st')"
  then show "fst (poll_resume disp h (Response status' (Json (Some es))))
      = h\<lparr>lastEventId := l', stores := st'\<rparr>"
    by (simp add: poll_resume_state)
next
  assume a: "process_events disp es (lastEventId h) (stores h) = (None, l', st') \<and>
    lastEventId h = Finite n \<and> list_all (\<lambda>e. ev_id e \<noteq> None) es"
  then have run: "process_events disp es (lastEventId h) (stores h) = (None, l', st')"
    and l: "lastEventId h = Finite n"
    and ids: "list_all (\<lambda>e. ev_id e \<noteq> None) es"
    by blast+
  from run have run': "process_events disp es (Finite n) (stores h) = (None, l', st')"
    unfolding l .
  then have "fst (process_events disp es (Finite n) (stores h)) = None" by simp
  then have "fst (snd (process_events disp es (Finite n) (stores h)))
      = Finite (Max (insert n ((the \<circ> ev_id) ` set es)))"
    using ids by (rule process_events_all)
  then show "l' = Finite (Max (insert n ((the \<circ> ev_id) ` set es)))"
    unfolding run' by simp
qed

text \<open>An instance: the batch with ids 5, 3, 4 after \<open>lastEventId = 2\<close>.\<close>

theorem batch_dispatched_in_arrival_order_witness:
  "ok 200 \<and>
   process_events dispatchEvent
     [bare_event 5 ''reaction'', bare_event 3 ''reaction'', bare_event 4 ''reaction'']
     (lastEventId (polling_handler 2)) (stores (polling_handler 2))
     = (None, Finite 5, empty_stores) \<and>
   lastEventId (polling_handler 2) = Finite 2 \<and>
   list_all (\<lambda>e. ev_id e \<noteq> None)
     [bare_event 5 ''reaction'', bare_event 3 ''reaction'', bare_event 4 ''reaction''] \<and>
   process_events (traced dispatchEvent)
     [bare_event 5 ''reaction'', bare_event 3 ''reaction'', bare_event 4 ''reaction'']
     (lastEventId (polling_handler 2)) ([], stores (polling_handler 2))
     = (None, Finite 5, [Some 5, Some 3, Some 4], empty_stores) \<and>
   fst (poll_resume dispatchEvent (polling_handler 2) (Response 200 (Json (Some
     [bare_event 5 ''reaction'', bare_event 3 ''reaction'', bare_event 4 ''reaction'']))))
     = (polling_handler 2)\<lparr>lastEventId := Finite 5, stores := empty_stores\<rparr> \<and>
   Finite 5 = Finite (Max (insert 2 ((the \<circ> ev_id) ` set
     [bare_event 5 ''reaction'', bare_event 3 ''reaction'', bare_event 4 ''reaction''])))"
proof -
  let ?es = "[bare_event 5 ''reaction'', bare_event 3 ''reaction'', bare_event 4 ''reaction'']"
  let ?h = "polling_handler 2"
  have k: "ok 200" by (simp add: ok_def)
  have run: "process_events dispatchEvent ?es (lastEventId ?h) (stores ?h)
      = (None, Finite 5, empty_stores)"
    by (simp add: three_reactions polling_handler_sel)
  have l: "lastEventId ?h = Finite 2" by (simp add: polling_handler_sel)
  have ids: "list_all (\<lambda>e. ev_id e \<noteq> None) ?es" by (simp add: ev_id_sample)
  note t = batch_dispatched_in_arrival_order [of ?es dispatchEvent ?h "[]" 200 "Finite 5"
      empty_stores 2]
  have c1: "process_events (traced dispatchEvent) ?es (lastEventId ?h) ([], stores ?h)
      = (None, Finite 5, [Some 5, Some 3, Some 4], empty_stores)"
    using t [THEN conjunct1]
  proof (elim exE conjE)
    fix j
    assume log: "process_events (traced dispatchEvent) ?es (lastEventId ?h) ([], stores ?h)
        = (fst (process_events dispatchEvent ?es (lastEventId ?h) (stores ?h)),
           fst (snd (process_events dispatchEvent ?es (lastEventId ?h) (stores ?h))),
           [] @ map ev_id (take j ?es),
           snd (snd (process_events dispatchEvent ?es (lastEventId ?h) (stores ?h))))"
      and full: "fst (process_events dispatchEvent ?es (lastEventId ?h) (stores ?h)) = None
        \<longrightarrow> j = length ?es"
    have "fst (process_events dispatchEvent ?es (lastEventId ?h) (stores ?h)) = None"
      unfolding run by simp
    with full have j: "j = 3" by simp
    have "map ev_id (take 3 ?es) = [Some 5, Some 3, Some 4]"
      by (simp add: ev_id_sample)
    then show ?thesis unfolding log run j by simp
  qed
  have c2: "fst (poll_resume dispatchEvent ?h (Response 200 (Json (Some ?es))))
      = ?h\<lparr>lastEventId := Finite 5, stores := empty_stores\<rparr>"
    using t [THEN conjunct2, THEN conjunct1] k run by blast
  have c3: "Finite 5 = Finite (Max (insert 2 ((the \<circ> ev_id) ` set ?es)))"
    using t [THEN conjunct2, THEN conjunct2] run l ids by blast
  show ?thesis using k run l ids c1 c2 c3 by (intro conjI)
qed

text \<open>
  The batch with ids 5, 3, 4 is dispatched in the order 5, 3, 4, which is not
  ascending; from \<open>lastEventId = 10\<close> the same batch leaves \<open>lastEventId\<close> at 10, not at
  the maximum id 5 of the batch; and a batch of one event without an id leaves it at
  \<open>NaN\<close>.
\<close>

theorem batch_not_sorted_before_dispatch:
  "fst (snd (snd (process_events (traced dispatchEvent)
     [bare_event 5 ''reaction'', bare_event 3 ''reaction'', bare_event 4 ''reaction'']
     (Finite 2) ([], empty_stores)))) = [Some 5, Some 3, Some 4] \<and>
   \<not> sorted (map the (fst (snd (snd (process_events (traced dispatchEvent)
     [bare_event 5 ''reaction'', bare_event 3 ''reaction'', bare_event 4 ''reaction'']
     (Finite 2) ([], empty_stores)))))) \<and>
   fst (snd (process_events dispatchEvent
     [bare_event 5 ''reaction'', bare_event 3 ''reaction'', bare_event 4 ''reaction'']
     (Finite 10) empty_stores)) = Finite 10 \<and>
   fst (snd (process_events dispatchEvent
     [(bare_event 0 ''reaction'')\<lparr>ev_id := None\<rparr>] (Finite 2) empty_stores)) = NaN"
  by (simp add: process_events_Cons traced_def dispatch_reaction dispatch_reaction_no_id
      ev_id_sample to_number_def)

lemma poll_begin_polling:
  "poll_begin (polling_handler l) =
     Some ((polling_handler l)\<lparr>abortController := True\<rparr>, FetchEvents ''queue'' (Finite l))"
  by (simp add: poll_begin_def polling_handler_def initial_handler_def no_queue_def)

text \<open>
  Claim C4 at a concrete input: a handler with \<open>lastEventId = 5\<close> receives a batch of
  one \<open>reaction\<close> event without an id, and then a batch of one event with id 7. No
  dispatch throws and nothing is logged. After the first batch \<open>lastEventId\<close> is \<open>NaN\<close>,
  and it stays \<open>NaN\<close> after the second: the three requests of the chain carry the
  \<open>last_event_id\<close> parameters 5, \<open>NaN\<close>, \<open>NaN\<close>. So \<open>lastEventId\<close> is neither non-decreasing
  nor the maximum id seen.
\<close>

theorem event_without_id_makes_lastEventId_NaN:
  "lastEventId (fst (poll_resume dispatchEvent (polling_handler 5)
     (Response 200 (Json (Some [(bare_event 0 ''reaction'')\<lparr>ev_id := None\<rparr>]))))) = NaN \<and>
   lastEventId (fst (run_polls dispatchEvent (polling_handler 5)
     [Response 200 (Json (Some [(bare_event 0 ''reaction'')\<lparr>ev_id := None\<rparr>])),
      Response 200 (Json (Some [bare_event 7 ''reaction'']))])) = NaN \<and>
   snd (run_polls dispatchEvent (polling_handler 5)
     [Response 200 (Json (Some [(bare_event 0 ''reaction'')\<lparr>ev_id := None\<rparr>])),
      Response 200 (Json (Some [bare_event 7 ''reaction'']))])
     = [FetchEvents ''queue'' (Finite 5), FetchEvents ''queue'' NaN, FetchEvents ''queue'' NaN]"
proof -
  let ?bad = "Response 200 (Json (Some [(bare_event 0 ''reaction'')\<lparr>ev_id := None\<rparr>]))"
  let ?good = "Response 200 (Json (Some [bare_event 7 ''reaction'']))"
  let ?h = "polling_handler 5"
  let ?h1 = "?h\<lparr>abortController := True\<rparr>"
  let ?h2 = "?h1\<lparr>lastEventId := NaN\<rparr>"
  have b1: "poll_begin ?h = Some (?h1, FetchEvents ''queue'' (Finite 5))"
    by (rule poll_begin_polling)
  have r1: "poll_resume dispatchEvent ?h1 ?bad = (?h2, [], PollNow)"
    by (simp add: poll_resume_def ok_def process_events_Cons dispatch_reaction_no_id
        to_number_def continue_def polling_handler_def initial_handler_def)
  have b2: "poll_begin ?h2 = Some (?h2, FetchEvents ''queue'' NaN)"
    by (simp add: poll_begin_def polling_handler_def initial_handler_def no_queue_def)
  have r2: "poll_resume dispatchEvent ?h2 ?good = (?h2, [], PollNow)"
    by (simp add: poll_resume_def ok_def process_events_Cons dispatch_reaction ev_id_sample
        to_number_def continue_def polling_handler_def initial_handler_def)
  have s3: "run_polls dispatchEvent ?h2 [] = (?h2, [FetchEvents ''queue'' NaN])"
    using b2 by simp
  have s2: "run_polls dispatchEvent ?h2 [?good]
      = (?h2, [FetchEvents ''queue'' NaN, FetchEvents ''queue'' NaN])"
    using run_polls_Cons [OF b2 r2, of "[]"] s3 by simp
  have s1: "run_polls dispatchEvent ?h [?bad, ?good]
      = (?h2, [FetchEvents ''queue'' (Finite 5), FetchEvents ''queue'' NaN,
               FetchEvents ''queue'' NaN])"
    using run_polls_Cons [OF b1 r1, of "[?good]"] s2 by simp
  have p: "fst (poll_resume dispatchEvent ?h ?bad) = ?h\<lparr>lastEventId := NaN\<rparr>"
    by (simp add: poll_resume_state ok_def process_events_Cons dispatch_reaction_no_id
        to_number_def polling_handler_def initial_handler_def)
  show ?thesis using s1 p by simp
qed

text \<open>
  Claim C5. On a response with status 400 \<open>poll\<close> logs that the queue expired, reloads
  the page and returns: it neither calls itself nor sets a retry timer, and the
  module's variables are unchanged. In a chain of polls the outcomes after the 400 are
  never asked for: the chain is the same whatever follows, it has sent at most one
  request per outcome up to the 400, and a reload is the last effect of any chain.
\<close>

theorem queue_expired_stops_polling:
  "poll_resume disp h (Response 400 b)
     = (h, [ConsoleError ''Event queue expired, reloading...'', Reload], Return) \<and>
   run_polls disp h (pre @ Response 400 b # post) = run_polls disp h (pre @ [Response 400 b]) \<and>
   length (requested (snd (run_polls disp h (pre @ Response 400 b # post)))) \<le> Suc (length pre) \<and>
   Reload \<notin> set (butlast (snd (run_polls disp h outs)))"
proof (intro conjI)
  show "poll_resume disp h (Response 400 b)
     = (h, [ConsoleError ''Event queue expired, reloading...'', Reload], Return)"
    by (simp add: poll_resume_def ok_def)
  show "run_polls disp h (pre @ Response 400 b # post) = run_polls disp h (pre @ [Response 400 b])"
    by (rule run_polls_stops_at_400)
  show "length (requested (snd (run_polls disp h (pre @ Response 400 b # post)))) \<le> Suc (length pre)"
    using run_polls_requests_to_400 [of disp h pre b]
    by (simp only: run_polls_stops_at_400 [of disp h pre b post])
  show "Reload \<notin> set (butlast (snd (run_polls disp h outs)))"
    by (rule run_polls_reload_last)
qed

lemma dispatch_message_no_payload: "dispatchEvent (bare_event i ''message'') st = Inl TypeError"
  by (simp add: dispatchEvent_def handleMessageEvent_def bare_event_def)

lemma dispatch_typing_no_sender:
  "dispatchEvent ((bare_event i ''typing'')\<lparr>ev_message_type := Some ''stream''\<rparr>) st = Inr st"
  by (simp add: dispatchEvent_def handleTypingEvent_def bare_event_def)

text \<open>
  Claim C6 at a concrete input: a batch of a \<open>message\<close> event without \<open>message\<close> (id 1)
  and a well-formed \<open>message\<close> event (id 2). The exception of the first leaves the loop
  and reaches the \<open>catch\<close> of \<open>poll\<close>: the error is logged, a retry is set for 5 seconds
  later, \<open>lastEventId\<close> is 1 and the second event is not dispatched, so the store stays
  empty. With a \<open>typing\<close> event without \<open>sender\<close> in place of the first event, whose
  handler returns early, the second event is dispatched and its message 10 stored.
\<close>

theorem message_without_payload_aborts_batch:
  "poll_resume dispatchEvent (polling_handler 0)
     (Response 200 (Json (Some
        [bare_event 1 ''message'', message_event 2 (sample_raw 10 7 ''hi'' Undefined)])))
   = ((polling_handler 0)\<lparr>lastEventId := Finite 1\<rparr>,
      [ConsoleError ''Event poll error:'', SetTimeoutPoll 5000], PollLater 5000) \<and>
   messages (stores ((polling_handler 0)\<lparr>lastEventId := Finite 1\<rparr>)) = [] \<and>
   map msg_id (messages (stores (fst (poll_resume dispatchEvent (polling_handler 0)
     (Response 200 (Json (Some
        [(bare_event 1 ''typing'')\<lparr>ev_message_type := Some ''stream''\<rparr>,
         message_event 2 (sample_raw 10 7 ''hi'' Undefined)]))))))) = [10]"
proof (intro conjI)
  show "poll_resume dispatchEvent (polling_handler 0)
     (Response 200 (Json (Some
        [bare_event 1 ''message'', message_event 2 (sample_raw 10 7 ''hi'' Undefined)])))
   = ((polling_handler 0)\<lparr>lastEventId := Finite 1\<rparr>,
      [ConsoleError ''Event poll error:'', SetTimeoutPoll 5000], PollLater 5000)"
    by (simp add: poll_resume_def ok_def process_events_Cons dispatch_message_no_payload
        ev_id_sample catch_def polling_handler_sel)
  show "messages (stores ((polling_handler 0)\<lparr>lastEventId := Finite 1\<rparr>)) = []"
    by (simp add: polling_handler_sel empty_stores_sel)
  have run: "process_events dispatchEvent
        [(bare_event 1 ''typing'')\<lparr>ev_message_type := Some ''stream''\<rparr>,
         message_event 2 (sample_raw 10 7 ''hi'' Undefined)] (Finite 0) empty_stores
      = (None, Finite 2, empty_stores\<lparr>messages :=
           addMessage (toTheaterMessage Map.empty (sample_raw 10 7 ''hi'' Undefined)) []\<rparr>)"
    by (simp add: process_events_Cons dispatch_typing_no_sender dispatch_message_event
        ev_id_sample empty_stores_sel)
  have raw: "raw_id (sample_raw 10 7 ''hi'' Undefined) = 10"
    by (simp add: sample_raw_def)
  show "map msg_id (messages (stores (fst (poll_resume dispatchEvent (polling_handler 0)
     (Response 200 (Json (Some
        [(bare_event 1 ''typing'')\<lparr>ev_message_type := Some ''stream''\<rparr>,
         message_event 2 (sample_raw 10 7 ''hi'' Undefined)]))))))) = [10]"
    by (simp add: poll_resume_state ok_def polling_handler_sel run addMessage_def
        sort_by_id_def toTheaterMessage_sel raw)
qed

subsection \<open>The typing store and its timers\<close>

lemma digit_char_inj: "a < 10 \<Longrightarrow> b < 10 \<Longrightarrow> digit_char a = digit_char b \<Longrightarrow> a = b"
proof -
  assume a: "a < 10" and b: "b < 10" and eq: "digit_char a = digit_char b"
  have d: "distinct ''0123456789''" by simp
  have "length ''0123456789'' = 10" by simp
  with a b eq d show "a = b"
    unfolding digit_char_def by (metis nth_eq_iff_index_eq)
qed

lemma digit_char_mem: "a < 10 \<Longrightarrow> digit_char a \<in> set ''0123456789''"
  unfolding digit_char_def by (rule nth_mem) simp

lemma digits_nonempty: "digits n \<noteq> []"
  by (subst digits.simps) simp

lemma digits_set: "set (digits n) \<subseteq> set ''0123456789''"
proof (induction n rule: digits.induct)
  case (1 n)
  show ?case
  proof (cases "n < 10")
    case True
    then show ?thesis using digit_char_mem [of n] by (subst digits.simps) simp
  next
    case False
    have "n mod 10 < 10" by simp
    then have "digit_char (n mod 10) \<in> set ''0123456789''" by (rule digit_char_mem)
    with False 1 show ?thesis by (subst digits.simps) simp
  qed
qed

lemma digits_inj: "digits n = digits m \<Longrightarrow> n = m"
proof (induction n arbitrary: m rule: digits.induct)
  case (1 n)
  show ?case
  proof (cases "n < 10")
    case n: True
    show ?thesis
    proof (cases "m < 10")
      case True
      with n "1.prems" show ?thesis
        by (simp add: digits.simps [of n] digits.simps [of m] digit_char_inj)
    next
      case False
      with n "1.prems" digits_nonempty [of "m div 10"] show ?thesis
        by (simp add: digits.simps [of n] digits.simps [of m])
    qed
  next
    case n: False
    show ?thesis
    proof (cases "m < 10")
      case True
      with n "1.prems" digits_nonempty [of "n div 10"] show ?thesis
        by (simp add: digits.simps [of n] digits.simps [of m])
    next
      case False
      with n "1.prems" have a: "digits (n div 10) = digits (m div 10)"
        and b: "digit_char (n mod 10) = digit_char (m mod 10)"
        by (simp_all add: digits.simps [of n] digits.simps [of m])
      from a have "n div 10 = m div 10" using "1.IH" n by simp
      moreover from b have "n mod 10 = m mod 10" by (simp add: digit_char_inj)
      ultimately show ?thesis by (metis div_mult_mod_eq)
    qed
  qed
qed

lemma num_str_no_colon: "CHR '':'' \<notin> set (num_str i)"
  using digits_set [of "nat i"] digits_set [of "nat (- i)"] by (auto simp: num_str_def)

lemma digits_no_minus: "CHR ''-'' \<notin> set (digits n)"
  using digits_set [of n] by auto

lemma num_str_inj: "num_str i = num_str j \<Longrightarrow> i = j"
proof -
  assume eq: "num_str i = num_str j"
  have hd_nonneg: "hd (digits n) \<noteq> CHR ''-''" for n
    using digits_no_minus [of n] digits_nonempty [of n] by (cases "digits n") auto
  show "i = j"
  proof (cases "i < 0")
    case i: True
    show ?thesis
    proof (cases "j < 0")
      case True
      with i eq have "digits (nat (- i)) = digits (nat (- j))" by (simp add: num_str_def)
      then have "nat (- i) = nat (- j)" by (rule digits_inj)
      with i True show ?thesis by simp
    next
      case False
      with i eq have "CHR ''-'' # digits (nat (- i)) = digits (nat j)" by (simp add: num_str_def)
      then have "hd (digits (nat j)) = CHR ''-''" by (metis list.sel(1))
      with hd_nonneg show ?thesis by blast
    qed
  next
    case i: False
    show ?thesis
    proof (cases "j < 0")
      case True
      with i eq have "digits (nat i) = CHR ''-'' # digits (nat (- j))" by (simp add: num_str_def)
      then have "hd (digits (nat i)) = CHR ''-''" by (metis list.sel(1))
      with hd_nonneg show ?thesis by blast
    next
      case False
      with i eq have "digits (nat i) = digits (nat j)" by (simp add: num_str_def)
      then have "nat i = nat j" by (rule digits_inj)
      with i False show ?thesis by simp
    qed
  qed
qed

lemma split_at_first:
  "c \<notin> set as \<Longrightarrow> c \<notin> set bs \<Longrightarrow> as @ c # r = bs @ c # r' \<Longrightarrow> as = bs \<and> r = r'"
proof (induction as arbitrary: bs)
  case Nil
  then show ?case by (cases bs) auto
next
  case (Cons a as)
  then show ?case by (cases bs) auto
qed

lemma split_at_last:
  "c \<notin> set ys \<Longrightarrow> c \<notin> set ys' \<Longrightarrow> xs @ c # ys = xs' @ c # ys' \<Longrightarrow> xs = xs' \<and> ys = ys'"
proof -
  assume a: "c \<notin> set ys" and b: "c \<notin> set ys'" and eq: "xs @ c # ys = xs' @ c # ys'"
  from eq have "rev (xs @ c # ys) = rev (xs' @ c # ys')" by simp
  then have "rev ys @ c # rev xs = rev ys' @ c # rev xs'" by simp
  moreover have "c \<notin> set (rev ys)" "c \<notin> set (rev ys')" using a b by simp_all
  ultimately have "rev ys = rev ys' \<and> rev xs = rev xs'" by (rule split_at_first [rotated 2])
  then show ?thesis by simp
qed

lemma timeoutKey_inj: "timeoutKey k u = timeoutKey k' u' \<Longrightarrow> k = k' \<and> u = u'"
  unfolding timeoutKey_def
  using split_at_last [of "CHR '':''" "num_str u" "num_str u'" k k'] num_str_no_colon num_str_inj
  by auto

lemma clearTypistTimeout_sel:
  "typists (clearTypistTimeout k u s) = typists s"
  "now (clearTypistTimeout k u s) = now s"
  "next_handle (clearTypistTimeout k u s) = next_handle s"
  "timeouts (clearTypistTimeout k u s) = (timeouts s)(timeoutKey k u := None)"
  "timers (clearTypistTimeout k u s) =
     (case timeouts s (timeoutKey k u) of
        None \<Rightarrow> timers s
      | Some h \<Rightarrow> filter (\<lambda>x. handle x \<noteq> h) (timers s))"
  by (auto simp: clearTypistTimeout_def clearTimeout_def Let_def split: option.splits)

lemma setTypistTimeout_sel:
  "typists (setTypistTimeout k u s) = typists s"
  "now (setTypistTimeout k u s) = now s"
  "next_handle (setTypistTimeout k u s) = Suc (next_handle s)"
  "timeouts (setTypistTimeout k u s) = (timeouts s)(timeoutKey k u \<mapsto> next_handle s)"
  "timers (setTypistTimeout k u s) =
     timers (clearTypistTimeout k u s) @
       [\<lparr>handle = next_handle s, deadline = now s + 15000, cb_key = k, cb_userId = u\<rparr>]"
  by (simp_all add: setTypistTimeout_def setTimeout_def clearTypistTimeout_sel Let_def)

lemma addTypist_alt:
  "addTypist k ty s =
     setTypistTimeout k (typist_user_id ty)
       (s\<lparr>typists :=
            (if is_typing k (typist_user_id ty) s then typists s
             else (typists s)(k \<mapsto> (case typists s k of Some ts \<Rightarrow> ts | None \<Rightarrow> []) @ [ty]))\<rparr>)"
  by (auto simp: addTypist_def is_typing_def Let_def image_iff split: option.splits)

lemma addTypist_sel:
  "now (addTypist k ty s) = now s"
  "next_handle (addTypist k ty s) = Suc (next_handle s)"
  "timeouts (addTypist k ty s) = (timeouts s)(timeoutKey k (typist_user_id ty) \<mapsto> next_handle s)"
  "timers (addTypist k ty s) =
     timers (clearTypistTimeout k (typist_user_id ty) s) @
       [\<lparr>handle = next_handle s, deadline = now s + 15000, cb_key = k,
         cb_userId = typist_user_id ty\<rparr>]"
  by (simp_all only: addTypist_alt setTypistTimeout_sel clearTypistTimeout_sel)
    (simp_all split: option.splits)

lemma removeTypist_sel:
  "now (removeTypist k u s) = now s"
  "next_handle (removeTypist k u s) = next_handle s"
  "timeouts (removeTypist k u s) = (timeouts s)(timeoutKey k u := None)"
  "timers (removeTypist k u s) = timers (clearTypistTimeout k u s)"
  by (simp_all add: removeTypist_def clearTypistTimeout_sel Let_def split: option.splits)

lemma is_typing_clear: "is_typing k u (clearTypistTimeout k' u' s) = is_typing k u s"
  by (simp add: is_typing_def clearTypistTimeout_sel)

lemma is_typing_set: "is_typing k u (setTypistTimeout k' u' s) = is_typing k u s"
  by (simp add: is_typing_def setTypistTimeout_sel)

lemma is_typing_add:
  "is_typing k u (addTypist k' ty s) = (is_typing k u s \<or> (k' = k \<and> typist_user_id ty = u))"
proof -
  have "is_typing k u (addTypist k' ty s) =
     is_typing k u (s\<lparr>typists :=
            (if is_typing k' (typist_user_id ty) s then typists s
             else (typists s)(k' \<mapsto> (case typists s k' of Some ts \<Rightarrow> ts | None \<Rightarrow> []) @ [ty]))\<rparr>)"
    by (simp only: addTypist_alt is_typing_set)
  also have "\<dots> = (is_typing k u s \<or> (k' = k \<and> typist_user_id ty = u))"
    by (auto simp: is_typing_def split: option.splits)
  finally show ?thesis .
qed

lemma is_typing_remove:
  "is_typing k u (removeTypist k' u' s) = (is_typing k u s \<and> \<not> (k' = k \<and> u' = u))"
proof -
  have nonempty: "filter P xs \<noteq> []" if "x \<in> set xs" "P x" for P and xs :: "Typist list" and x
    using that by (auto simp: filter_empty_conv)
  show ?thesis
    by (auto simp: removeTypist_def is_typing_def clearTypistTimeout_sel Let_def
        filter_empty_conv split: option.splits)
qed

lemma timers_clear_mem:
  "x \<in> set (timers (clearTypistTimeout k u s)) \<longleftrightarrow>
     x \<in> set (timers s) \<and> timeouts s (timeoutKey k u) \<noteq> Some (handle x)"
  by (auto simp: clearTypistTimeout_sel split: option.splits)

lemma typing_inv_cong:
  "timers a = timers b \<Longrightarrow> timeouts a = timeouts b \<Longrightarrow> next_handle a = next_handle b \<Longrightarrow>
   typing_inv a = typing_inv b"
  by (simp add: typing_inv_def)

lemma inv_clear: "typing_inv s \<Longrightarrow> typing_inv (clearTypistTimeout k u s)"
proof -
  assume inv: "typing_inv s"
  show ?thesis
    unfolding typing_inv_def
  proof (intro conjI ballI allI impI)
    fix x assume "x \<in> set (timers (clearTypistTimeout k u s))"
    then have x: "x \<in> set (timers s)" and ne: "timeouts s (timeoutKey k u) \<noteq> Some (handle x)"
      by (simp_all add: timers_clear_mem)
    from x inv have r: "timeouts s (timeoutKey (cb_key x) (cb_userId x)) = Some (handle x)"
      by (simp add: typing_inv_def)
    with ne have "timeoutKey (cb_key x) (cb_userId x) \<noteq> timeoutKey k u" by auto
    with r show "timeouts (clearTypistTimeout k u s) (timeoutKey (cb_key x) (cb_userId x))
        = Some (handle x)"
      by (simp add: clearTypistTimeout_sel)
  next
    fix k' h assume "timeouts (clearTypistTimeout k u s) k' = Some h"
    then have "timeouts s k' = Some h"
      by (simp add: clearTypistTimeout_sel split: if_splits)
    with inv show "h < next_handle (clearTypistTimeout k u s)"
      by (simp add: typing_inv_def clearTypistTimeout_sel)
  next
    fix k1 k2 h
    assume "timeouts (clearTypistTimeout k u s) k1 = Some h"
      and "timeouts (clearTypistTimeout k u s) k2 = Some h"
    then have "timeouts s k1 = Some h" "timeouts s k2 = Some h"
      by (simp_all add: clearTypistTimeout_sel split: if_splits)
    with inv show "k1 = k2" unfolding typing_inv_def by blast
  qed
qed

lemma inv_set: "typing_inv s \<Longrightarrow> typing_inv (setTypistTimeout k u s)"
proof -
  assume inv: "typing_inv s"
  let ?c = "clearTypistTimeout k u s"
  have c: "typing_inv ?c" using inv by (rule inv_clear)
  have none: "timeouts ?c (timeoutKey k u) = None"
    by (simp add: clearTypistTimeout_sel)
  have to: "timeouts (setTypistTimeout k u s) = (timeouts ?c)(timeoutKey k u \<mapsto> next_handle s)"
    by (simp add: setTypistTimeout_sel clearTypistTimeout_sel)
  have nh: "next_handle ?c = next_handle s"
    by (simp add: clearTypistTimeout_sel)
  show ?thesis
    unfolding typing_inv_def
  proof (intro conjI ballI allI impI)
    fix x assume "x \<in> set (timers (setTypistTimeout k u s))"
    then consider "x \<in> set (timers ?c)"
      | "x = \<lparr>handle = next_handle s, deadline = now s + 15000, cb_key = k, cb_userId = u\<rparr>"
      by (auto simp: setTypistTimeout_sel)
    then show "timeouts (setTypistTimeout k u s) (timeoutKey (cb_key x) (cb_userId x)) = Some (handle x)"
    proof cases
      case 1
      then have r: "timeouts ?c (timeoutKey (cb_key x) (cb_userId x)) = Some (handle x)"
        using c by (simp add: typing_inv_def)
      with none have "timeoutKey (cb_key x) (cb_userId x) \<noteq> timeoutKey k u" by auto
      with r show ?thesis by (simp add: to)
    next
      case 2
      then show ?thesis by (simp add: to)
    qed
  next
    fix k' h assume "timeouts (setTypistTimeout k u s) k' = Some h"
    then have "h = next_handle s \<or> timeouts ?c k' = Some h"
      by (auto simp: to split: if_splits)
    then show "h < next_handle (setTypistTimeout k u s)"
      using c nh by (auto simp: typing_inv_def setTypistTimeout_sel less_Suc_eq)
  next
    fix k1 k2 h
    assume a: "timeouts (setTypistTimeout k u s) k1 = Some h"
      and b: "timeouts (setTypistTimeout k u s) k2 = Some h"
    have fresh: "timeouts ?c k' \<noteq> Some (next_handle s)" for k'
      using c nh by (auto simp: typing_inv_def)
    show "k1 = k2"
    proof (cases "h = next_handle s")
      case True
      with a b fresh show ?thesis by (auto simp: to split: if_splits)
    next
      case False
      with a b have "timeouts ?c k1 = Some h" "timeouts ?c k2 = Some h"
        by (auto simp: to split: if_splits)
      with c show ?thesis unfolding typing_inv_def by blast
    qed
  qed
qed

lemma inv_add: "typing_inv s \<Longrightarrow> typing_inv (addTypist k ty s)"
proof -
  assume "typing_inv s"
  then have "typing_inv (setTypistTimeout k (typist_user_id ty) s)" by (rule inv_set)
  moreover have "typing_inv (addTypist k ty s) = typing_inv (setTypistTimeout k (typist_user_id ty) s)"
    by (rule typing_inv_cong) (simp_all add: addTypist_sel setTypistTimeout_sel)
  ultimately show ?thesis by simp
qed

lemma inv_remove: "typing_inv s \<Longrightarrow> typing_inv (removeTypist k u s)"
proof -
  assume "typing_inv s"
  then have "typing_inv (clearTypistTimeout k u s)" by (rule inv_clear)
  moreover have "typing_inv (removeTypist k u s) = typing_inv (clearTypistTimeout k u s)"
    by (rule typing_inv_cong) (simp_all add: removeTypist_sel clearTypistTimeout_sel)
  ultimately show ?thesis by simp
qed

lemma inv_drop_timer:
  "typing_inv s \<Longrightarrow> typing_inv (s\<lparr>timers := filter P (timers s), now := n\<rparr>)"
  by (simp add: typing_inv_def)

lemma inv_fire: "typing_inv s \<Longrightarrow> typing_inv (fire x s)"
  unfolding fire_def by (intro inv_remove inv_drop_timer)

lemma earliest_mem: "earliest ys = Some y \<Longrightarrow> y \<in> set ys"
  by (induction ys arbitrary: y) (auto split: option.splits if_splits)

lemma earliest_None: "earliest ys = None \<longleftrightarrow> ys = []"
  by (induction ys) (auto split: option.splits)

lemma next_due_Some: "next_due t ts = Some x \<Longrightarrow> x \<in> set ts \<and> deadline x \<le> t"
  using earliest_mem [of "filter (\<lambda>x. deadline x \<le> t) ts" x] by (simp add: next_due_def)

lemma next_due_None: "next_due t ts = None \<longleftrightarrow> (\<forall>x \<in> set ts. t < deadline x)"
  by (auto simp: next_due_def earliest_None filter_empty_conv not_le)

lemma inv_advance: "typing_inv s \<Longrightarrow> typing_inv (advance t s)"
proof (induction t s rule: advance.induct)
  case (1 t s)
  show ?case
  proof (cases "next_due t (timers s)")
    case None
    then show ?thesis using "1.prems" by (simp add: advance.simps [of t s] typing_inv_def)
  next
    case (Some x)
    have "typing_inv (fire x s)" using "1.prems" by (rule inv_fire)
    then have "typing_inv (advance t (fire x s))" by (rule "1.IH" [OF Some])
    then show ?thesis using Some by (simp add: advance.simps [of t s])
  qed
qed

lemma now_fire: "now (fire x s) = max (now s) (deadline x)"
  by (simp add: fire_def removeTypist_sel)

lemma now_advance: "now (advance t s) = max (now s) t"
proof (induction t s rule: advance.induct)
  case (1 t s)
  show ?case
  proof (cases "next_due t (timers s)")
    case None
    then show ?thesis by (simp add: advance.simps [of t s])
  next
    case (Some x)
    then have "deadline x \<le> t" using next_due_Some by blast
    moreover have "now (advance t (fire x s)) = max (now (fire x s)) t"
      by (rule "1.IH" [OF Some])
    ultimately show ?thesis using Some by (simp add: advance.simps [of t s] now_fire)
  qed
qed

lemma inv_empty: "typing_inv empty_typing"
  by (simp add: typing_inv_def empty_typing_def)

lemma inv_call: "typing_inv s \<Longrightarrow> typing_inv (typing_call c s)"
  by (cases c) (simp_all add: inv_add inv_remove inv_advance)

lemma inv_calls: "typing_inv s \<Longrightarrow> typing_inv (typing_calls cs s)"
  unfolding typing_calls_def by (induction cs arbitrary: s) (simp_all add: inv_call)

lemma own_handle:
  "typing_inv s \<Longrightarrow> x \<in> set (timers s) \<Longrightarrow> timer_for k u x \<Longrightarrow>
   timeouts s (timeoutKey k u) = Some (handle x)"
  by (auto simp: typing_inv_def timer_for_def)

lemma other_handle:
  assumes inv: "typing_inv s" and x: "x \<in> set (timers s)" and own: "timer_for k u x"
    and other: "k' \<noteq> k \<or> u' \<noteq> u"
  shows "timeouts s (timeoutKey k' u') \<noteq> Some (handle x)"
proof
  assume "timeouts s (timeoutKey k' u') = Some (handle x)"
  moreover have "timeouts s (timeoutKey k u) = Some (handle x)"
    using inv x own by (rule own_handle)
  ultimately have "timeoutKey k' u' = timeoutKey k u"
    using inv unfolding typing_inv_def by blast
  then have "k' = k \<and> u' = u" by (rule timeoutKey_inj)
  with other show False by blast
qed

lemma clear_keeps_other:
  "typing_inv s \<Longrightarrow> x \<in> set (timers s) \<Longrightarrow> timer_for k u x \<Longrightarrow> k' \<noteq> k \<or> u' \<noteq> u \<Longrightarrow>
   x \<in> set (timers (clearTypistTimeout k' u' s))"
  by (simp add: timers_clear_mem other_handle)

lemma clear_drops_own:
  "typing_inv s \<Longrightarrow> x \<in> set (timers (clearTypistTimeout k u s)) \<Longrightarrow> \<not> timer_for k u x"
  using own_handle [of s x k u] by (auto simp: timers_clear_mem)

lemma clear_subset: "x \<in> set (timers (clearTypistTimeout k u s)) \<Longrightarrow> x \<in> set (timers s)"
  by (simp add: timers_clear_mem)

lemma armed_add_self:
  assumes inv: "typing_inv s"
  shows "armed k (typist_user_id ty) (now s + 15000) (addTypist k ty s)"
  unfolding armed_def
proof (intro conjI ballI impI)
  let ?u = "typist_user_id ty"
  let ?new = "\<lparr>handle = next_handle s, deadline = now s + 15000, cb_key = k, cb_userId = ?u\<rparr>"
  show "is_typing k ?u (addTypist k ty s)" by (simp add: is_typing_add)
  have "?new \<in> set (timers (addTypist k ty s))" by (simp add: addTypist_sel)
  moreover have "timer_for k ?u ?new" by (simp add: timer_for_def)
  ultimately show "\<exists>x \<in> set (timers (addTypist k ty s)). timer_for k ?u x" by blast
  fix x assume x: "x \<in> set (timers (addTypist k ty s))" and own: "timer_for k ?u x"
  from x have "x = ?new \<or> x \<in> set (timers (clearTypistTimeout k ?u s))"
    by (auto simp: addTypist_sel)
  with own clear_drops_own [OF inv] have "x = ?new" by blast
  then show "deadline x = now s + 15000" by simp
qed

lemma armed_add_other:
  assumes inv: "typing_inv s" and a: "armed k u D s" and other: "k' \<noteq> k \<or> typist_user_id ty \<noteq> u"
  shows "armed k u D (addTypist k' ty s)"
  unfolding armed_def
proof (intro conjI ballI impI)
  show "is_typing k u (addTypist k' ty s)" using a by (simp add: is_typing_add armed_def)
  from a obtain y where y: "y \<in> set (timers s)" "timer_for k u y" by (auto simp: armed_def)
  then have "y \<in> set (timers (clearTypistTimeout k' (typist_user_id ty) s))"
    using inv other by (simp add: clear_keeps_other)
  then have "y \<in> set (timers (addTypist k' ty s))" by (simp add: addTypist_sel)
  with y show "\<exists>x \<in> set (timers (addTypist k' ty s)). timer_for k u x" by blast
  fix x assume x: "x \<in> set (timers (addTypist k' ty s))" and own: "timer_for k u x"
  from x own other have "x \<in> set (timers (clearTypistTimeout k' (typist_user_id ty) s))"
    by (auto simp: addTypist_sel timer_for_def)
  then have "x \<in> set (timers s)" by (rule clear_subset)
  with a own show "deadline x = D" by (simp add: armed_def)
qed

lemma armed_remove_other:
  assumes inv: "typing_inv s" and a: "armed k u D s" and other: "k' \<noteq> k \<or> u' \<noteq> u"
  shows "armed k u D (removeTypist k' u' s)"
  unfolding armed_def
proof (intro conjI ballI impI)
  show "is_typing k u (removeTypist k' u' s)"
    using a other by (auto simp: is_typing_remove armed_def)
  from a obtain y where y: "y \<in> set (timers s)" "timer_for k u y" by (auto simp: armed_def)
  then have "y \<in> set (timers (clearTypistTimeout k' u' s))"
    using inv other by (simp add: clear_keeps_other)
  then have "y \<in> set (timers (removeTypist k' u' s))" by (simp add: removeTypist_sel)
  with y show "\<exists>x \<in> set (timers (removeTypist k' u' s)). timer_for k u x" by blast
  fix x assume x: "x \<in> set (timers (removeTypist k' u' s))" and own: "timer_for k u x"
  from x have "x \<in> set (timers s)" by (simp add: removeTypist_sel clear_subset)
  with a own show "deadline x = D" by (simp add: armed_def)
qed

lemma gone_add_other:
  assumes g: "gone k u s" and other: "k' \<noteq> k \<or> typist_user_id ty \<noteq> u"
  shows "gone k u (addTypist k' ty s)"
  unfolding gone_def
proof (intro conjI ballI)
  show "\<not> is_typing k u (addTypist k' ty s)"
    using g other by (auto simp: is_typing_add gone_def)
  fix x assume "x \<in> set (timers (addTypist k' ty s))"
  then have "x \<in> set (timers s) \<or> (cb_key x = k' \<and> cb_userId x = typist_user_id ty)"
    by (auto simp: addTypist_sel dest: clear_subset)
  with g other show "\<not> timer_for k u x" by (auto simp: gone_def timer_for_def)
qed

lemma gone_remove: "gone k u s \<Longrightarrow> gone k u (removeTypist k' u' s)"
  by (auto simp: gone_def is_typing_remove removeTypist_sel dest: clear_subset)

lemma gone_fire: "gone k u s \<Longrightarrow> gone k u (fire x s)"
proof -
  assume g: "gone k u s"
  let ?s = "s\<lparr>timers := filter (\<lambda>y. handle y \<noteq> handle x) (timers s),
              now := max (now s) (deadline x)\<rparr>"
  have "gone k u ?s" using g by (simp add: gone_def is_typing_def)
  then show ?thesis unfolding fire_def by (rule gone_remove)
qed

lemma gone_advance: "gone k u s \<Longrightarrow> gone k u (advance t s)"
proof (induction t s rule: advance.induct)
  case (1 t s)
  show ?case
  proof (cases "next_due t (timers s)")
    case None
    then show ?thesis using "1.prems" by (simp add: advance.simps [of t s] gone_def is_typing_def)
  next
    case (Some x)
    have "gone k u (fire x s)" using "1.prems" by (rule gone_fire)
    then have "gone k u (advance t (fire x s))" by (rule "1.IH" [OF Some])
    then show ?thesis using Some by (simp add: advance.simps [of t s])
  qed
qed

lemma armed_fire_other:
  assumes inv: "typing_inv s" and a: "armed k u D s" and x: "x \<in> set (timers s)"
    and other: "\<not> timer_for k u x"
  shows "armed k u D (fire x s)"
proof -
  let ?s = "s\<lparr>timers := filter (\<lambda>y. handle y \<noteq> handle x) (timers s),
              now := max (now s) (deadline x)\<rparr>"
  have inv': "typing_inv ?s" using inv by (rule inv_drop_timer)
  have ne: "cb_key x \<noteq> k \<or> cb_userId x \<noteq> u" using other by (simp add: timer_for_def)
  have xreg: "timeouts s (timeoutKey (cb_key x) (cb_userId x)) = Some (handle x)"
    using inv x by (simp add: typing_inv_def)
  have keep: "handle y \<noteq> handle x" if "y \<in> set (timers s)" "timer_for k u y" for y
    using other_handle [OF inv that ne] xreg by auto
  have "armed k u D ?s"
    unfolding armed_def
  proof (intro conjI ballI impI)
    show "is_typing k u ?s" using a by (simp add: armed_def is_typing_def)
    from a obtain y where y: "y \<in> set (timers s)" "timer_for k u y" by (auto simp: armed_def)
    with keep have "y \<in> set (timers ?s)" by simp
    with y show "\<exists>y \<in> set (timers ?s). timer_for k u y" by blast
    fix y assume "y \<in> set (timers ?s)" and "timer_for k u y"
    with a show "deadline y = D" by (simp add: armed_def)
  qed
  with inv' show ?thesis unfolding fire_def using ne by (intro armed_remove_other)
qed

lemma gone_fire_own:
  assumes inv: "typing_inv s" and x: "x \<in> set (timers s)" and own: "timer_for k u x"
  shows "gone k u (fire x s)"
proof -
  let ?s = "s\<lparr>timers := filter (\<lambda>y. handle y \<noteq> handle x) (timers s),
              now := max (now s) (deadline x)\<rparr>"
  have inv': "typing_inv ?s" using inv by (rule inv_drop_timer)
  have f: "fire x s = removeTypist k u ?s"
    using own by (simp add: fire_def timer_for_def)
  show ?thesis
    unfolding gone_def f
  proof (intro conjI ballI)
    show "\<not> is_typing k u (removeTypist k u ?s)" by (simp add: is_typing_remove)
    fix y assume "y \<in> set (timers (removeTypist k u ?s))"
    then have "y \<in> set (timers (clearTypistTimeout k u ?s))" by (simp add: removeTypist_sel)
    then show "\<not> timer_for k u y" using inv' by (rule clear_drops_own [rotated])
  qed
qed

lemma armed_advance_before:
  "typing_inv s \<Longrightarrow> armed k u D s \<Longrightarrow> t < D \<Longrightarrow> armed k u D (advance t s)"
proof (induction t s rule: advance.induct)
  case (1 t s)
  show ?case
  proof (cases "next_due t (timers s)")
    case None
    then show ?thesis using "1.prems"
      by (simp add: advance.simps [of t s] armed_def is_typing_def)
  next
    case (Some x)
    then have x: "x \<in> set (timers s)" and due: "deadline x \<le> t"
      using next_due_Some by blast+
    have other: "\<not> timer_for k u x"
      using "1.prems" x due by (auto simp: armed_def)
    have "typing_inv (fire x s)" using "1.prems"(1) by (rule inv_fire)
    moreover have "armed k u D (fire x s)"
      using "1.prems"(1,2) x other by (rule armed_fire_other)
    ultimately have "armed k u D (advance t (fire x s))"
      using "1.prems"(3) by (intro "1.IH" [OF Some])
    then show ?thesis using Some by (simp add: advance.simps [of t s])
  qed
qed

lemma armed_advance_after:
  "typing_inv s \<Longrightarrow> armed k u D s \<Longrightarrow> D \<le> t \<Longrightarrow> gone k u (advance t s)"
proof (induction t s rule: advance.induct)
  case (1 t s)
  from "1.prems"(2) obtain y where y: "y \<in> set (timers s)" "timer_for k u y" "deadline y = D"
    by (auto simp: armed_def)
  from y(3) "1.prems"(3) have "\<not> t < deadline y" by simp
  with y(1) have "next_due t (timers s) \<noteq> None"
    unfolding next_due_None by blast
  then obtain x where Some: "next_due t (timers s) = Some x" by blast
  then have x: "x \<in> set (timers s)" using next_due_Some by blast
  have "gone k u (advance t (fire x s))"
  proof (cases "timer_for k u x")
    case True
    have "gone k u (fire x s)" using "1.prems"(1) x True by (rule gone_fire_own)
    then show ?thesis by (rule gone_advance)
  next
    case False
    have "typing_inv (fire x s)" using "1.prems"(1) by (rule inv_fire)
    moreover have "armed k u D (fire x s)"
      using "1.prems"(1,2) x False by (rule armed_fire_other)
    ultimately show ?thesis using "1.prems"(3) by (intro "1.IH" [OF Some])
  qed
  then show ?case using Some by (simp add: advance.simps [of t s])
qed


lemma now_call: "now (typing_call c s) = now s + elapsed [c]"
  by (cases c) (simp_all add: addTypist_sel removeTypist_sel now_advance)

lemma elapsed_Cons: "elapsed (c # cs) = elapsed [c] + elapsed cs"
  by (cases c) simp_all

lemma expiry_step:
  assumes inv: "typing_inv s"
    and st: "(armed k u D s \<and> now s < D) \<or> (gone k u s \<and> D \<le> now s)"
    and other: "other_key k u c"
  shows "(armed k u D (typing_call c s) \<and> now (typing_call c s) < D) \<or>
         (gone k u (typing_call c s) \<and> D \<le> now (typing_call c s))"
proof (cases c)
  case (Start k' ty)
  with other have o: "k' \<noteq> k \<or> typist_user_id ty \<noteq> u" by simp
  show ?thesis using st Start inv o
    by (auto simp: addTypist_sel armed_add_other gone_add_other)
next
  case (Stop k' u')
  with other have o: "k' \<noteq> k \<or> u' \<noteq> u" by simp
  show ?thesis using st Stop inv o
    by (auto simp: removeTypist_sel armed_remove_other gone_remove)
next
  case (Elapse d)
  from st show ?thesis
  proof
    assume a: "armed k u D s \<and> now s < D"
    show ?thesis
    proof (cases "now s + d < D")
      case True
      have "armed k u D (advance (now s + d) s)"
        using inv conjunct1 [OF a] True by (rule armed_advance_before)
      with True Elapse show ?thesis by (simp add: now_advance)
    next
      case False
      then have le: "D \<le> now s + d" by simp
      have "gone k u (advance (now s + d) s)"
        using inv conjunct1 [OF a] le by (rule armed_advance_after)
      with le Elapse show ?thesis by (simp add: now_advance)
    qed
  next
    assume g: "gone k u s \<and> D \<le> now s"
    then have "gone k u (advance (now s + d) s)" by (simp add: gone_advance)
    with g Elapse show ?thesis by (simp add: now_advance)
  qed
qed

lemma expiry_steps:
  "typing_inv s \<Longrightarrow> (armed k u D s \<and> now s < D) \<or> (gone k u s \<and> D \<le> now s) \<Longrightarrow>
   list_all (other_key k u) cs \<Longrightarrow>
   ((armed k u D (typing_calls cs s) \<and> now (typing_calls cs s) < D) \<or>
    (gone k u (typing_calls cs s) \<and> D \<le> now (typing_calls cs s))) \<and>
   now (typing_calls cs s) = now s + elapsed cs"
proof (induction cs arbitrary: s)
  case Nil
  then show ?case by (simp add: typing_calls_def)
next
  case (Cons c cs)
  have c: "other_key k u c" and cs: "list_all (other_key k u) cs"
    using Cons.prems(3) by simp_all
  have inv': "typing_inv (typing_call c s)" using Cons.prems(1) by (rule inv_call)
  have st': "(armed k u D (typing_call c s) \<and> now (typing_call c s) < D) \<or>
         (gone k u (typing_call c s) \<and> D \<le> now (typing_call c s))"
    using Cons.prems(1,2) c by (rule expiry_step)
  have unf: "typing_calls (c # cs) s = typing_calls cs (typing_call c s)"
    by (simp add: typing_calls_def)
  note ih = Cons.IH [OF inv' st' cs]
  have "now (typing_call c s) + elapsed cs = now s + elapsed (c # cs)"
    using now_call [of c s] elapsed_Cons [of c cs] by simp
  with ih have n: "now (typing_calls cs (typing_call c s)) = now s + elapsed (c # cs)"
    by simp
  show ?case unfolding unf using ih n by blast
qed

lemma handleTypingEvent_start:
  "handleTypingEvent
     ((bare_event i ''typing'')
        \<lparr>ev_message_type := Some ''stream'', ev_stream_id := Some sid, ev_topic := Some tp,
         ev_op := Some ''start'', ev_sender := Some \<lparr>s_user_id = u, s_full_name = Some n\<rparr>\<rparr>) st
   = st\<lparr>typing :=
          addTypist (num_str sid @ '':'' @ tp)
            \<lparr>typist_user_id = u, typist_full_name = n, typist_persona_name = None\<rparr> (typing st)\<rparr>"
  by (simp add: handleTypingEvent_def bare_event_def tmpl_num_def tmpl_str_def)

text \<open>
  Claim C7. Take any state the typing store reaches from its initial state, then a
  \<open>typing-start\<close> (\<open>addTypist\<close>) for a user under a key, and then any calls for other
  users or keys with time passing in between, but no start and no stop for this user
  under this key. The user is listed as typing under the key exactly as long as less
  than 15000 ms have passed since that start: the entry is there at every earlier
  instant and is removed when the 15000 ms are reached. An earlier start for the same
  user and key (in the state before) does not shorten this: the new start cancels its
  timer and sets a new one. A timer of the runtime fires when its deadline is reached.
\<close>

theorem typist_expires_after_15000:
  "list_all (other_key key (typist_user_id typist)) ops \<longrightarrow>
   is_typing key (typist_user_id typist)
     (typing_calls ops (addTypist key typist (typing_calls before empty_typing)))
   = (elapsed ops < 15000)"
proof
  assume other: "list_all (other_key key (typist_user_id typist)) ops"
  let ?u = "typist_user_id typist"
  let ?s0 = "typing_calls before empty_typing"
  let ?s1 = "addTypist key typist ?s0"
  let ?D = "now ?s0 + 15000"
  let ?s2 = "typing_calls ops ?s1"
  have inv0: "typing_inv ?s0" using inv_empty by (rule inv_calls)
  then have inv1: "typing_inv ?s1" by (rule inv_add)
  have "armed key ?u ?D ?s1" using inv0 by (rule armed_add_self)
  moreover have n1: "now ?s1 = now ?s0" by (simp add: addTypist_sel)
  ultimately have st: "(armed key ?u ?D ?s1 \<and> now ?s1 < ?D) \<or> (gone key ?u ?s1 \<and> ?D \<le> now ?s1)"
    by simp
  have fin: "((armed key ?u ?D ?s2 \<and> now ?s2 < ?D) \<or> (gone key ?u ?s2 \<and> ?D \<le> now ?s2)) \<and>
      now ?s2 = now ?s1 + elapsed ops"
    using inv1 st other by (rule expiry_steps)
  then have "now ?s2 < ?D \<longleftrightarrow> elapsed ops < 15000" using n1 by simp
  moreover have "is_typing key ?u ?s2 \<longleftrightarrow> now ?s2 < ?D"
    using fin by (auto simp: armed_def gone_def)
  ultimately show "is_typing key ?u ?s2 = (elapsed ops < 15000)" by simp
qed

text \<open>
  An instance: a start for user 5 under \<open>1:X\<close>, 10 seconds, a second start; the user is
  still listed 14999 ms after the second start, with another user starting in
  between, and is no longer listed 15000 ms after it.
\<close>

theorem typist_expires_after_15000_witness:
  "list_all (other_key ''1:X'' 5)
     [Elapse 7000, Start ''1:X'' \<lparr>typist_user_id = 6, typist_full_name = ''Othello'',
        typist_persona_name = None\<rparr>, Elapse 7999] \<and>
   is_typing ''1:X'' 5
     (typing_calls
        [Elapse 7000, Start ''1:X'' \<lparr>typist_user_id = 6, typist_full_name = ''Othello'',
           typist_persona_name = None\<rparr>, Elapse 7999]
        (addTypist ''1:X'' \<lparr>typist_user_id = 5, typist_full_name = ''Iago'',
           typist_persona_name = None\<rparr>
           (typing_calls
              [Start ''1:X'' \<lparr>typist_user_id = 5, typist_full_name = ''Iago'',
                 typist_persona_name = None\<rparr>, Elapse 10000] empty_typing))) \<and>
   list_all (other_key ''1:X'' 5) [Elapse 15000] \<and>
   \<not> is_typing ''1:X'' 5
     (typing_calls [Elapse 15000]
        (addTypist ''1:X'' \<lparr>typist_user_id = 5, typist_full_name = ''Iago'',
           typist_persona_name = None\<rparr>
           (typing_calls
              [Start ''1:X'' \<lparr>typist_user_id = 5, typist_full_name = ''Iago'',
                 typist_persona_name = None\<rparr>, Elapse 10000] empty_typing)))"
proof -
  let ?iago = "\<lparr>typist_user_id = 5, typist_full_name = ''Iago'', typist_persona_name = None\<rparr>"
  let ?othello = "\<lparr>typist_user_id = 6, typist_full_name = ''Othello'', typist_persona_name = None\<rparr>"
  have h1: "list_all (other_key ''1:X'' (typist_user_id ?iago)) [Elapse 7000, Start ''1:X'' ?othello, Elapse 7999]"
    by simp
  have h2: "list_all (other_key ''1:X'' (typist_user_id ?iago)) [Elapse 15000]"
    by simp
  have c1: "is_typing ''1:X'' (typist_user_id ?iago)
     (typing_calls [Elapse 7000, Start ''1:X'' ?othello, Elapse 7999]
        (addTypist ''1:X'' ?iago (typing_calls [Start ''1:X'' ?iago, Elapse 10000] empty_typing)))
     = (elapsed [Elapse 7000, Start ''1:X'' ?othello, Elapse 7999] < 15000)"
    using typist_expires_after_15000 [of "''1:X''" ?iago
        "[Elapse 7000, Start ''1:X'' ?othello, Elapse 7999]" "[Start ''1:X'' ?iago, Elapse 10000]"] h1
    by blast
  have c2: "is_typing ''1:X'' (typist_user_id ?iago)
     (typing_calls [Elapse 15000]
        (addTypist ''1:X'' ?iago (typing_calls [Start ''1:X'' ?iago, Elapse 10000] empty_typing)))
     = (elapsed [Elapse 15000] < 15000)"
    using typist_expires_after_15000 [of "''1:X''" ?iago "[Elapse 15000]"
        "[Start ''1:X'' ?iago, Elapse 10000]"] h2
    by blast
  show ?thesis using h1 h2 c1 c2 by simp
qed

end
